theory Spec2Isabelle
  imports Complex_Main "HOL-Library.AList" "HOL-Library.Char_ord" "HOL-Library.List_Lexorder"
begin

section \<open>JavaScript strings\<close>

text \<open>
  A JavaScript string is modelled as a \<open>string\<close>: one \<open>char\<close> stands for one UTF-16 code
  unit, and only the code units below 256 exist in the model. \<open>length\<close> is the source's
  \<open>.length\<close>, the default \<open>sort()\<close> of an array of strings is \<open>sort\<close> in the
  lexicographic order of the code units. The four symbols of the message templates lie
  outside this range (the high voltage sign, the eyes, the bullet and the dash). Each of
  their code units, one for every symbol but the eyes, which take two, is represented by a
  code unit between 0x80 and 0x84: a control character that is no white space, no letter
  and no character that \<open>esc\<close> rewrites. So the lengths of the messages are the source's.
\<close>

definition NL :: char where
  "NL = CHR 0x0A"

definition DQ :: char where
  "DQ = CHR 0x22"

definition BSL :: char where
  "BSL = CHR 0x5C"

definition bolt :: string where
  "bolt = [CHR 0x80]"

definition eyes :: string where
  "eyes = [CHR 0x81, CHR 0x82]"

definition bullet :: string where
  "bullet = [CHR 0x83]"

definition emdash :: string where
  "emdash = [CHR 0x84]"

text \<open>The character classes of the regular expressions: \<open>\d\<close>, \<open>\w\<close>, \<open>\s\<close>.\<close>

definition isDigit :: "char \<Rightarrow> bool" where
  "isDigit c = (c \<in> set ''0123456789'')"

definition isWord :: "char \<Rightarrow> bool" where
  "isWord c = (c \<in> set ''abcdefghijklmnopqrstuvwxyzABCDEFGHIJKLMNOPQRSTUVWXYZ0123456789_'')"

definition isSpace :: "char \<Rightarrow> bool" where
  "isSpace c = (c \<in> set [CHR 0x09, CHR 0x0A, CHR 0x0B, CHR 0x0C, CHR 0x0D, CHR 0x20, CHR 0xA0])"

text \<open>\<open>s.trim()\<close>, \<open>s.startsWith(p)\<close>, \<open>s.includes(n)\<close>, \<open>xs.join(sep)\<close>,
  \<open>s.split(c)\<close> for a separator of one character.\<close>

definition trim :: "string \<Rightarrow> string" where
  "trim s = rev (dropWhile isSpace (rev (dropWhile isSpace s)))"

definition startsWith :: "string \<Rightarrow> string \<Rightarrow> bool" where
  "startsWith s p = (take (length p) s = p)"

fun includesStr :: "string \<Rightarrow> string \<Rightarrow> bool" where
  "includesStr [] n = (n = [])"
| "includesStr (c # cs) n = (startsWith (c # cs) n \<or> includesStr cs n)"

fun join :: "string \<Rightarrow> string list \<Rightarrow> string" where
  "join sep [] = []"
| "join sep [x] = x"
| "join sep (x # y # ys) = x @ sep @ join sep (y # ys)"

fun split :: "char \<Rightarrow> string \<Rightarrow> string list" where
  "split sep [] = [[]]"
| "split sep (c # cs) =
     (if c = sep then [] # split sep cs
      else (c # hd (split sep cs)) # tl (split sep cs))"

text \<open>\<open>s.toLowerCase()\<close>: the letters A to Z, and the capital letters of Latin-1 (192 to 222
  but the multiplication sign 215), move up by 32; every other code unit stays.\<close>

definition isUpper :: "char \<Rightarrow> bool" where
  "isUpper c = (let n = (of_char c :: nat) in
     (65 \<le> n \<and> n \<le> 90) \<or> (192 \<le> n \<and> n \<le> 222 \<and> n \<noteq> 215))"

definition lowerChar :: "char \<Rightarrow> char" where
  "lowerChar c = (if isUpper c then char_of ((of_char c :: nat) + 32) else c)"

definition toLowerCase :: "string \<Rightarrow> string" where
  "toLowerCase s = map lowerChar s"

text \<open>A template literal prints a length in decimal.\<close>

function showNat :: "nat \<Rightarrow> string" where
  "showNat n = (if n < 10 then [''0123456789'' ! n] else showNat (n div 10) @ [''0123456789'' ! (n mod 10)])"
  by pat_completeness auto
termination
  by (relation "measure id") auto

declare showNat.simps [simp del]

section \<open>JSON\<close>

text \<open>
  \<open>JSON.stringify\<close> of an array of strings and of a record of strings or nulls, as
  ECMAScript's QuoteJSONString writes them: the quote and the backslash are escaped, the
  control characters are written \<open>\b \t \n \f \r\<close> or \<open>\u00xx\<close>, every other code
  unit stands for itself. No white space is added.
\<close>

definition hexDigit :: "nat \<Rightarrow> char" where
  "hexDigit n = char_of (if n < 10 then 48 + n else 87 + n)"

definition escapeChar :: "char \<Rightarrow> string" where
  "escapeChar c =
     (if c = DQ then [BSL, DQ]
      else if c = BSL then [BSL, BSL]
      else if c = CHR 0x08 then [BSL, CHR ''b'']
      else if c = CHR 0x09 then [BSL, CHR ''t'']
      else if c = CHR 0x0A then [BSL, CHR ''n'']
      else if c = CHR 0x0C then [BSL, CHR ''f'']
      else if c = CHR 0x0D then [BSL, CHR ''r'']
      else if (of_char c :: nat) < 32
        then [BSL, CHR ''u'', CHR ''0'', CHR ''0'',
              hexDigit ((of_char c :: nat) div 16), hexDigit ((of_char c :: nat) mod 16)]
      else [c])"

definition QuoteJSONString :: "string \<Rightarrow> string" where
  "QuoteJSONString s = DQ # concat (map escapeChar s) @ [DQ]"

definition JSON_stringify_ids :: "string list \<Rightarrow> string" where
  "JSON_stringify_ids ids = ''['' @ join '','' (map QuoteJSONString ids) @ '']''"

definition JSON_stringify_fields :: "(string \<times> string option) list \<Rightarrow> string" where
  "JSON_stringify_fields fs =
     ''{'' @ join '','' (map (\<lambda>(k, v). QuoteJSONString k @ '':'' @
        (case v of None \<Rightarrow> ''null'' | Some s \<Rightarrow> QuoteJSONString s)) fs) @ ''}''"

text \<open>
  What \<open>JSON.parse\<close> returns. The parser itself belongs to the runtime (see below); the
  program passes its result to \<open>new Set(...)\<close>, which takes the elements of an array,
  the characters of a string, nothing from \<open>null\<close>, and throws a TypeError on a number,
  a boolean or an object.
\<close>

datatype json =
    JNull
  | JBool bool
  | JNumber rat
  | JString string
  | JArray "json list"
  | JObject "(string \<times> json) list"

datatype failure = FetchError string | ParseError | NotifyError | TypeError

definition new_Set :: "json \<Rightarrow> failure + json list" where
  "new_Set v =
     (case v of
        JArray xs \<Rightarrow> Inr xs
      | JString s \<Rightarrow> Inr (map (\<lambda>c. JString [c]) s)
      | JNull \<Rightarrow> Inr []
      | _ \<Rightarrow> Inl TypeError)"

definition Set_has :: "json list \<Rightarrow> json \<Rightarrow> bool" where
  "Set_has s v = (v \<in> set s)"

section \<open>The data model\<close>

text \<open>
  A JavaScript object and a \<open>Map\<close> keep their keys in insertion order, so both are
  association lists with distinct keys: \<open>AList.update\<close> overwrites the value of a key where it
  stands and appends a new key at the end, as \<open>m.set(k, v)\<close>, \<open>o[k] = v\<close> and the spread
  \<open>{...o, [k]: v}\<close> do. (A key that is an array index would be moved in front by a JavaScript
  object; the keys of the state map are hexadecimal digests of 64 characters, and the field
  names are assumed not to be numbers. A field selector is assumed not to be named
  \<open>__proto__\<close>, which an assignment would not store as a key.)
\<close>

record ScrapedItem =
  item_id :: string
  item_url :: string
  item_fields :: "(string \<times> string option) list"

type_synonym StateMap = "(string \<times> string) list"

datatype status = initialized | new_items | unchanged | error

record MonitorResult =
  res_name :: string
  res_status :: status
  res_count :: "nat option"
  res_newItems :: "ScrapedItem list option"
  res_error :: "failure option"

record FieldsMonitor =
  fm_name :: string
  fm_url :: string
  selectors :: "(string \<times> string) list"

record ExtractOptions =
  baseUrl :: "string option"
  idAttribute :: "string option"
  urlTemplate :: "string option"
  fieldTransforms :: "(string \<times> string) list option"

record ListMonitor = ExtractOptions +
  lm_name :: string
  urls :: "string list"
  itemSelector :: string
  lm_fields :: "(string \<times> string) list"
  maxPrice :: "rat option"
  sections :: "string list option"

definition Map_new :: "('k \<times> 'v) list \<Rightarrow> ('k \<times> 'v) list" where
  "Map_new entries = foldl (\<lambda>m (k, v). AList.update k v m) [] entries"

definition Map_get :: "('k \<times> 'v) list \<Rightarrow> 'k \<Rightarrow> 'v option" where
  "Map_get m k = map_of m k"

definition Map_has :: "('k \<times> 'v) list \<Rightarrow> 'k \<Rightarrow> bool" where
  "Map_has m k = (map_of m k \<noteq> None)"

text \<open>\<open>fields[k] ?? null\<close>: a missing field and a null field are both \<open>None\<close>.\<close>

definition getField :: "(string \<times> string option) list \<Rightarrow> string \<Rightarrow> string option" where
  "getField fs k = (case map_of fs k of Some (Some v) \<Rightarrow> Some v | _ \<Rightarrow> None)"

section \<open>The runtime\<close>

text \<open>
  A JavaScript number is a double: NaN, an infinity, or a finite double, which the model
  keeps as the rational number it is exactly, so that \<open><=\<close> on finite numbers is \<open>\<le>\<close> on
  these rationals. The limit \<open>maxPrice\<close> of the configuration is such a finite number.
\<close>

datatype number = NaN | Num rat | Infinity

text \<open>
  What the program calls and does not define: the HTTP client, the cheerio document
  (\<open>'el\<close> is its type of elements), the URL class, the SHA-256 digest, \<open>JSON.parse\<close>,
  \<open>parseFloat\<close>, the printing of a number and the Telegram client. \<open>None\<close> is a call
  that throws (for \<open>cheerioFindAttr\<close> the inner \<open>None\<close> is \<open>undefined\<close>: no match, or no
  such attribute); \<open>telegramSend\<close> tells whether \<open>sendMessage\<close> succeeded.
  \<open>parseFloat\<close> is called on digits with maybe a dot and two digits after them: it returns
  the double nearest to that decimal, NaN when there is no digit at all, and Infinity
  beyond the range of the doubles.
\<close>

record 'el runtime =
  httpGet :: "string \<Rightarrow> string option"
  cheerioSelect :: "string \<Rightarrow> string \<Rightarrow> 'el list option"
  cheerioFindAttr :: "'el \<Rightarrow> string \<Rightarrow> string \<Rightarrow> string option option"
  cheerioFindText :: "'el \<Rightarrow> string \<Rightarrow> string option"
  cheerioAttr :: "'el \<Rightarrow> string \<Rightarrow> string option"
  cheerioText :: "string \<Rightarrow> string \<Rightarrow> string option"
  newURL :: "string \<Rightarrow> string \<Rightarrow> string option"
  sha256hex :: "string \<Rightarrow> string"
  JSON_parse :: "string \<Rightarrow> json option"
  parseFloat :: "string \<Rightarrow> number"
  numberToString :: "rat \<Rightarrow> string"
  telegramSend :: "string \<Rightarrow> bool"

text \<open>\<open>Effect.all\<close>: every value in order, or a failure as soon as one effect fails (the
  model reports the leftmost one).\<close>

fun Effect_all :: "('e + 'a) list \<Rightarrow> 'e + 'a list" where
  "Effect_all [] = Inr []"
| "Effect_all (x # xs) =
     (case x of
        Inl e \<Rightarrow> Inl e
      | Inr v \<Rightarrow> (case Effect_all xs of Inl e \<Rightarrow> Inl e | Inr vs \<Rightarrow> Inr (v # vs)))"

definition fetchPage :: "'el runtime \<Rightarrow> string \<Rightarrow> failure + string" where
  "fetchPage rt url = (case httpGet rt url of None \<Rightarrow> Inl (FetchError url) | Some html \<Rightarrow> Inr html)"

section \<open>The helpers of the monitor\<close>

text \<open>
  \<open>parsePrice\<close> runs the regular expression \<open>\$([\d,]+(?:\.\d{2})?)\<close>: the leftmost
  dollar sign that a digit or a comma follows, then the longest run of digits and commas,
  then a dot and two digits when they come next. \<open>priceMatch\<close> is the group \<open>m[1]\<close>.
\<close>

definition isPriceChar :: "char \<Rightarrow> bool" where
  "isPriceChar c = (isDigit c \<or> c = CHR '','')"

fun priceMatch :: "string \<Rightarrow> string option" where
  "priceMatch [] = None"
| "priceMatch (c # cs) =
     (if c = CHR ''$'' \<and> takeWhile isPriceChar cs \<noteq> []
      then Some (takeWhile isPriceChar cs @
                 (case dropWhile isPriceChar cs of
                    d # a # b # _ \<Rightarrow> if d = CHR ''.'' \<and> isDigit a \<and> isDigit b then [d, a, b] else []
                  | _ \<Rightarrow> []))
      else priceMatch cs)"

text \<open>The commas are taken out of the group and the runtime's \<open>parseFloat\<close> reads the
  rest.\<close>

definition parsePrice :: "'el runtime \<Rightarrow> string option \<Rightarrow> number option" where
  "parsePrice rt str =
     (case str of
        None \<Rightarrow> None
      | Some s \<Rightarrow>
          if s = [] then None
          else (case priceMatch s of
                  None \<Rightarrow> None
                | Some m \<Rightarrow> Some (parseFloat rt (filter (\<lambda>c. c \<noteq> CHR '','') m))))"

text \<open>\<open>price !== null && price <= maxPrice\<close>: a comparison with NaN is false, and the
  configured limit is a finite number, which Infinity exceeds.\<close>

definition priceAtMost :: "number option \<Rightarrow> rat \<Rightarrow> bool" where
  "priceAtMost price limit = (case price of Some (Num p) \<Rightarrow> p \<le> limit | _ \<Rightarrow> False)"

definition replaceAllChar :: "char \<Rightarrow> string \<Rightarrow> string \<Rightarrow> string" where
  "replaceAllChar c r s = concat (map (\<lambda>x. if x = c then r else [x]) s)"

definition esc :: "string \<Rightarrow> string" where
  "esc str = replaceAllChar (CHR ''>'') ''&gt;''
               (replaceAllChar (CHR ''<'') ''&lt;''
                 (replaceAllChar (CHR ''&'') ''&amp;'' str))"

text \<open>\<open>s.replace(/\s+/g, " ")\<close>: every run of white space becomes one space.\<close>

function collapseSpaces :: "string \<Rightarrow> string" where
  "collapseSpaces [] = []"
| "collapseSpaces (c # cs) =
     (if isSpace c then CHR '' '' # collapseSpaces (dropWhile isSpace cs)
      else c # collapseSpaces cs)"
  by pat_completeness auto
termination
  by (relation "measure length") (auto simp: length_dropWhile_le less_Suc_eq_le)

definition titleOf :: "ScrapedItem \<Rightarrow> string" where
  "titleOf item = (case getField (item_fields item) ''title'' of Some t \<Rightarrow> t | None \<Rightarrow> item_id item)"

definition formatItemLine :: "ScrapedItem \<Rightarrow> string" where
  "formatItemLine item =
     (let title = esc (titleOf item);
          link = (if item_url item \<noteq> []
                  then ''<a href='' @ [DQ] @ item_url item @ [DQ] @ ''>'' @ title @ ''</a>''
                  else ''<b>'' @ title @ ''</b>'');
          discount = map_option (\<lambda>d. trim (collapseSpaces d)) (getField (item_fields item) ''discount'');
          price = map_option trim (getField (item_fields item) ''price'');
          extras = (case discount of Some d \<Rightarrow> if d \<noteq> [] then [d] else [] | None \<Rightarrow> [])
                 @ (case price of Some p \<Rightarrow> if p \<noteq> [] then [p] else [] | None \<Rightarrow> [])
      in bullet @ '' '' @ link @
         (if extras \<noteq> [] then ''  '' @ emdash @ ''  '' @ join ''  /  '' extras else []))"

text \<open>\<open>detectSection\<close>: the loop over the keywords returns at the first one that the
  lower-cased title includes.\<close>

fun detectSectionLoop :: "string \<Rightarrow> string list \<Rightarrow> string" where
  "detectSectionLoop lower [] = ''Others''"
| "detectSectionLoop lower (section # rest) =
     (if includesStr lower (toLowerCase section) then section
      else detectSectionLoop lower rest)"

definition detectSection :: "string \<Rightarrow> string list \<Rightarrow> string" where
  "detectSection title secs = detectSectionLoop (toLowerCase title) secs"

text \<open>
  \<open>formatNewItems\<close>. The groups are a \<open>Map\<close> from section to items, filled in the order
  of the items; \<open>groups.get(section)!\<close> is read right after the key was set, and for the
  sections that \<open>groups.has\<close> kept, so \<open>the\<close> always meets a \<open>Some\<close> (lemmas
  \<open>groupItems_get\<close> below).
\<close>

definition pushGroup :: "string list \<Rightarrow> (string \<times> ScrapedItem list) list \<Rightarrow> ScrapedItem
    \<Rightarrow> (string \<times> ScrapedItem list) list" where
  "pushGroup secs groups item =
     (let section = detectSection (titleOf item) secs;
          groups1 = (if \<not> Map_has groups section then AList.update section [] groups else groups)
      in AList.update section (the (Map_get groups1 section) @ [item]) groups1)"

definition groupItems :: "ScrapedItem list \<Rightarrow> string list \<Rightarrow> (string \<times> ScrapedItem list) list" where
  "groupItems items secs = foldl (pushGroup secs) [] items"

definition newItemsHeader :: "string \<Rightarrow> ScrapedItem list \<Rightarrow> string" where
  "newItemsHeader monitorName items =
     (let count = length items
      in bolt @ '' <b>'' @ showNat count @ '' new item'' @ (if count > 1 then ''s'' else []) @
         ''</b> '' @ emdash @ '' '' @ esc monitorName)"

definition formatNewItems :: "string \<Rightarrow> ScrapedItem list \<Rightarrow> string list option \<Rightarrow> string" where
  "formatNewItems monitorName items secsOpt =
     (let header = newItemsHeader monitorName items
      in case secsOpt of
           None \<Rightarrow> join [NL] ([header, []] @ map formatItemLine items)
         | Some secs \<Rightarrow>
             if length secs = 0 then join [NL] ([header, []] @ map formatItemLine items)
             else
               let groups = groupItems items secs;
                   ordered = filter (Map_has groups) secs
                           @ (if Map_has groups ''Others'' then [''Others''] else []);
                   lines = foldl (\<lambda>lines section.
                              lines @ [[], ''<b>'' @ esc section @ ''</b>'']
                                    @ map formatItemLine (the (Map_get groups section)))
                            [header] ordered
               in join [NL] lines)"

text \<open>
  The grouped message in the words of the specification, to compare \<open>formatNewItems\<close>
  with. Two characters are the same letter when they are equal, or when one of them is a
  capital letter (A to Z, or a capital letter of Latin-1) and the other is the small letter
  that goes with it, 32 code units further. A keyword occurs in a title, letter case set
  aside, when a stretch of the title agrees with the keyword letter by letter:
  \<open>startsIgnoringCase\<close> compares at the start of the title, \<open>occursIgnoringCase\<close> at
  every place. The keyword of an item is the first configured keyword that occurs in its
  title, if there is one. The message is the header and then one block for every keyword,
  in the configured order (\<open>keywordsOnce\<close>: a keyword that is written twice counts where
  it comes first), and last the block "Others" of the items without a keyword. A block is
  an empty line, the heading in bold and the lines of the group's items in their order; a
  group without items has no block.
\<close>

definition capitalLetter :: "char \<Rightarrow> bool" where
  "capitalLetter c =
     (c \<in> set ''ABCDEFGHIJKLMNOPQRSTUVWXYZ''
      \<or> (192 \<le> (of_char c :: nat) \<and> (of_char c :: nat) \<le> 222 \<and> (of_char c :: nat) \<noteq> 215))"

definition sameLetter :: "char \<Rightarrow> char \<Rightarrow> bool" where
  "sameLetter c d =
     (c = d \<or> (capitalLetter c \<and> (of_char d :: nat) = of_char c + 32)
            \<or> (capitalLetter d \<and> (of_char c :: nat) = of_char d + 32))"

fun startsIgnoringCase :: "string \<Rightarrow> string \<Rightarrow> bool" where
  "startsIgnoringCase title [] = True"
| "startsIgnoringCase [] (k # ks) = False"
| "startsIgnoringCase (c # cs) (k # ks) = (sameLetter c k \<and> startsIgnoringCase cs ks)"

fun occursIgnoringCase :: "string \<Rightarrow> string \<Rightarrow> bool" where
  "occursIgnoringCase key [] = (key = [])"
| "occursIgnoringCase key (c # cs) = (startsIgnoringCase (c # cs) key \<or> occursIgnoringCase key cs)"

definition keywordOf :: "string list \<Rightarrow> ScrapedItem \<Rightarrow> string option" where
  "keywordOf secs item = find (\<lambda>key. occursIgnoringCase key (titleOf item)) secs"

fun keywordsOnce :: "string list \<Rightarrow> string list" where
  "keywordsOnce [] = []"
| "keywordsOnce (key # rest) = key # filter (\<lambda>k. k \<noteq> key) (keywordsOnce rest)"

definition groupBlock :: "string \<Rightarrow> ScrapedItem list \<Rightarrow> string list" where
  "groupBlock heading its =
     (if its = [] then []
      else [[], ''<b>'' @ esc heading @ ''</b>''] @ map formatItemLine its)"

definition groupedLines :: "string \<Rightarrow> ScrapedItem list \<Rightarrow> string list \<Rightarrow> string list" where
  "groupedLines monitorName items secs =
     newItemsHeader monitorName items #
     concat (map (\<lambda>key. groupBlock key (filter (\<lambda>i. keywordOf secs i = Some key) items))
               (keywordsOnce secs))
     @ groupBlock ''Others'' (filter (\<lambda>i. keywordOf secs i = None) items)"

section \<open>The scraper\<close>

text \<open>A value is truthy when it is neither null, undefined nor the empty string.\<close>

definition truthy :: "string option \<Rightarrow> bool" where
  "truthy v = (case v of Some s \<Rightarrow> s \<noteq> [] | None \<Rightarrow> False)"

text \<open>
  \<open>/^(.+)@([\w-]+)$/\<close>: the attribute name is what follows the last \<open>@\<close>, one or more
  word characters or hyphens; the selector is what stands before it, one or more
  characters of one line.
\<close>

definition attrMatch :: "string \<Rightarrow> (string \<times> string) option" where
  "attrMatch selectorRaw =
     (let attr = rev (takeWhile (\<lambda>c. c \<noteq> CHR ''@'') (rev selectorRaw))
      in case dropWhile (\<lambda>c. c \<noteq> CHR ''@'') (rev selectorRaw) of
           [] \<Rightarrow> None
         | _ # sel \<Rightarrow>
             if sel \<noteq> [] \<and> list_all (\<lambda>c. c \<noteq> CHR 0x0A \<and> c \<noteq> CHR 0x0D) sel
                \<and> attr \<noteq> [] \<and> list_all (\<lambda>c. isWord c \<or> c = CHR ''-'') attr
             then Some (rev sel, attr) else None)"

text \<open>
  \<open>extractItemList\<close>, from the inside out. \<open>extractField\<close> is one round of the loop
  over the field selectors: an attribute value, made absolute when a base URL is
  configured and \<open>new URL\<close> does not throw, or the trimmed text (null when it is empty).
  \<open>extractFieldsLoop\<close> is that loop.
\<close>

definition extractField :: "'el runtime \<Rightarrow> string option \<Rightarrow> 'el \<Rightarrow> string \<Rightarrow> failure + string option" where
  "extractField rt base el selectorRaw =
     (case attrMatch selectorRaw of
        Some (selector, attr) \<Rightarrow>
          (case cheerioFindAttr rt el selector attr of
             None \<Rightarrow> Inl ParseError
           | Some raw \<Rightarrow>
               if truthy raw \<and> truthy base
               then (case newURL rt (the raw) (the base) of
                       Some u \<Rightarrow> Inr (Some u)
                     | None \<Rightarrow> Inr raw)
               else Inr raw)
      | None \<Rightarrow>
          (case cheerioFindText rt el selectorRaw of
             None \<Rightarrow> Inl ParseError
           | Some t \<Rightarrow> Inr (if trim t = [] then None else Some (trim t))))"

fun extractFieldsLoop :: "'el runtime \<Rightarrow> string option \<Rightarrow> 'el \<Rightarrow> (string \<times> string) list
    \<Rightarrow> (string \<times> string option) list \<Rightarrow> failure + (string \<times> string option) list" where
  "extractFieldsLoop rt base el [] flds = Inr flds"
| "extractFieldsLoop rt base el ((field, selectorRaw) # rest) flds =
     (case extractField rt base el selectorRaw of
        Inl e \<Rightarrow> Inl e
      | Inr v \<Rightarrow> extractFieldsLoop rt base el rest (AList.update field v flds))"

text \<open>
  \<open>applyTransform\<close> is one round of the loop over the field transforms, and
  \<open>applyTransforms\<close> that loop. \<open>fields[field]\<close> reads a key of the object or else a
  member that the object literal inherits from \<open>Object.prototype\<close>
  (\<open>objectPrototypeMembers\<close>): a function or, for \<open>__proto__\<close>, the prototype itself.
  Such a value is truthy and has no \<open>startsWith\<close>, so that for a \<open>stripPrefix\<close>
  transform the call \<open>val.startsWith(prefix)\<close> throws, which ends the extraction with a
  \<open>ParseError\<close>.
\<close>

definition objectPrototypeMembers :: "string list" where
  "objectPrototypeMembers =
     [''constructor'', ''__defineGetter__'', ''__defineSetter__'', ''hasOwnProperty'',
      ''__lookupGetter__'', ''__lookupSetter__'', ''isPrototypeOf'', ''propertyIsEnumerable'',
      ''toString'', ''valueOf'', ''__proto__'', ''toLocaleString'']"

definition applyTransform :: "(string \<times> string option) list \<Rightarrow> string \<times> string
    \<Rightarrow> failure + (string \<times> string option) list" where
  "applyTransform flds ft =
     (case ft of (field, transform) \<Rightarrow>
        (case map_of flds field of
           None \<Rightarrow>
             if field \<in> set objectPrototypeMembers \<and> startsWith transform ''stripPrefix:''
             then Inl ParseError else Inr flds
         | Some None \<Rightarrow> Inr flds
         | Some (Some val) \<Rightarrow>
             if val = [] then Inr flds
             else if startsWith transform ''stripPrefix:''
               then (let prefix = drop (length ''stripPrefix:'') transform
                     in Inr (AList.update field
                          (Some (if startsWith val prefix then drop (length prefix) val else val))
                          flds))
               else Inr flds))"

fun applyTransforms :: "(string \<times> string option) list \<Rightarrow> (string \<times> string) list
    \<Rightarrow> failure + (string \<times> string option) list" where
  "applyTransforms flds [] = Inr flds"
| "applyTransforms flds (ft # rest) =
     (case applyTransform flds ft of
        Inl e \<Rightarrow> Inl e
      | Inr flds1 \<Rightarrow> applyTransforms flds1 rest)"

text \<open>\<open>/\/products\/([^/?]+)/\<close>: the leftmost \<open>/products/\<close> that a character other than
  a slash and a question mark follows; the id is the longest run of such characters.\<close>

definition isCodeChar :: "char \<Rightarrow> bool" where
  "isCodeChar c = (c \<noteq> CHR ''/'' \<and> c \<noteq> CHR ''?'')"

fun productsMatch :: "string \<Rightarrow> string option" where
  "productsMatch [] = None"
| "productsMatch (c # cs) =
     (if startsWith (c # cs) ''/products/''
         \<and> takeWhile isCodeChar (drop (length ''/products/'') (c # cs)) \<noteq> []
      then Some (takeWhile isCodeChar (drop (length ''/products/'') (c # cs)))
      else productsMatch cs)"

definition resolveId :: "'el runtime \<Rightarrow> string option \<Rightarrow> 'el \<Rightarrow> (string \<times> string option) list
    \<Rightarrow> string option" where
  "resolveId rt idAttr el flds =
     (if truthy idAttr then cheerioAttr rt el (the idAttr)
      else (case getField flds ''url'' of
              None \<Rightarrow> None
            | Some urlVal \<Rightarrow> if urlVal = [] then None else productsMatch urlVal))"

text \<open>
  \<open>s.replace(pattern, replacement)\<close> with a pattern that is a string: the first occurrence
  is replaced, and in the replacement \<open>$$\<close> is a dollar sign, \<open>$&\<close> the match,
  \<open>$`\<close> what precedes it and \<open>$'\<close> what follows it.
\<close>

fun splitAtFirst :: "string \<Rightarrow> string \<Rightarrow> (string \<times> string) option" where
  "splitAtFirst pat [] = (if pat = [] then Some ([], []) else None)"
| "splitAtFirst pat (c # cs) =
     (if startsWith (c # cs) pat then Some ([], drop (length pat) (c # cs))
      else map_option (\<lambda>(b, a). (c # b, a)) (splitAtFirst pat cs))"

fun getSubstitution :: "string \<Rightarrow> string \<Rightarrow> string \<Rightarrow> string \<Rightarrow> string" where
  "getSubstitution m b a [] = []"
| "getSubstitution m b a [c] = [c]"
| "getSubstitution m b a (c # d # r) =
     (if c = CHR ''$'' \<and> d = CHR ''$'' then CHR ''$'' # getSubstitution m b a r
      else if c = CHR ''$'' \<and> d = CHR ''&'' then m @ getSubstitution m b a r
      else if c = CHR ''$'' \<and> d = CHR 0x60 then b @ getSubstitution m b a r
      else if c = CHR ''$'' \<and> d = CHR 0x27 then a @ getSubstitution m b a r
      else c # getSubstitution m b a (d # r))"

definition replaceFirst :: "string \<Rightarrow> string \<Rightarrow> string \<Rightarrow> string" where
  "replaceFirst s pat rep =
     (case splitAtFirst pat s of
        None \<Rightarrow> s
      | Some (b, a) \<Rightarrow> b @ getSubstitution pat b a rep @ a)"

definition resolveUrl :: "string option \<Rightarrow> string option \<Rightarrow> (string \<times> string option) list \<Rightarrow> string" where
  "resolveUrl template ident flds =
     (if truthy template \<and> truthy ident then replaceFirst (the template) ''{id}'' (the ident)
      else (case getField flds ''url'' of Some u \<Rightarrow> u | None \<Rightarrow> []))"

text \<open>The body of the \<open>each\<close> callback: the fields of one element, extracted and then
  transformed (\<open>elementFields\<close>), and its item, \<open>None\<close> when no id was resolved; or the
  failure that ends the whole extraction.\<close>

definition elementFields :: "'el runtime \<Rightarrow> (string \<times> string) list \<Rightarrow> ExtractOptions \<Rightarrow> 'el
    \<Rightarrow> failure + (string \<times> string option) list" where
  "elementFields rt fieldSelectors options el =
     (case extractFieldsLoop rt (baseUrl options) el fieldSelectors [] of
        Inl e \<Rightarrow> Inl e
      | Inr flds0 \<Rightarrow>
          (case fieldTransforms options of
             Some ts \<Rightarrow> applyTransforms flds0 ts
           | None \<Rightarrow> Inr flds0))"

definition extractElement :: "'el runtime \<Rightarrow> (string \<times> string) list \<Rightarrow> ExtractOptions \<Rightarrow> 'el
    \<Rightarrow> failure + ScrapedItem option" where
  "extractElement rt fieldSelectors options el =
     (case elementFields rt fieldSelectors options el of
        Inl e \<Rightarrow> Inl e
      | Inr flds \<Rightarrow>
          let ident = resolveId rt (idAttribute options) el flds;
              url = resolveUrl (urlTemplate options) ident flds
          in if truthy ident
             then Inr (Some \<lparr>item_id = the ident, item_url = url, item_fields = flds\<rparr>)
             else Inr None)"

fun eachElement :: "'el runtime \<Rightarrow> (string \<times> string) list \<Rightarrow> ExtractOptions \<Rightarrow> 'el list
    \<Rightarrow> ScrapedItem list \<Rightarrow> failure + ScrapedItem list" where
  "eachElement rt fieldSelectors options [] items = Inr items"
| "eachElement rt fieldSelectors options (el # els) items =
     (case extractElement rt fieldSelectors options el of
        Inl e \<Rightarrow> Inl e
      | Inr None \<Rightarrow> eachElement rt fieldSelectors options els items
      | Inr (Some item) \<Rightarrow> eachElement rt fieldSelectors options els (items @ [item]))"

definition extractItemList :: "'el runtime \<Rightarrow> string \<Rightarrow> string \<Rightarrow> (string \<times> string) list
    \<Rightarrow> ExtractOptions \<Rightarrow> failure + ScrapedItem list" where
  "extractItemList rt html itemSel fieldSelectors options =
     (case cheerioSelect rt html itemSel of
        None \<Rightarrow> Inl ParseError
      | Some els \<Rightarrow> eachElement rt fieldSelectors options els [])"

text \<open>\<open>extractFields\<close>: \<open>fieldEntries\<close> maps the entries of the selectors, and
  \<open>Object.fromEntries\<close> makes the object.\<close>

fun fieldEntries :: "'el runtime \<Rightarrow> string \<Rightarrow> (string \<times> string) list
    \<Rightarrow> failure + (string \<times> string option) list" where
  "fieldEntries rt html [] = Inr []"
| "fieldEntries rt html ((field, selector) # rest) =
     (case cheerioText rt html selector of
        None \<Rightarrow> Inl ParseError
      | Some t \<Rightarrow>
          (case fieldEntries rt html rest of
             Inl e \<Rightarrow> Inl e
           | Inr entries \<Rightarrow> Inr ((field, if trim t = [] then None else Some (trim t)) # entries)))"

definition extractFields :: "'el runtime \<Rightarrow> string \<Rightarrow> (string \<times> string) list
    \<Rightarrow> failure + (string \<times> string option) list" where
  "extractFields rt html sels =
     (case fieldEntries rt html sels of
        Inl e \<Rightarrow> Inl e
      | Inr entries \<Rightarrow> Inr (Map_new entries))"

section \<open>The monitors\<close>

text \<open>
  A check reads and updates the state map and sends messages. Its model takes the state and
  returns the result, the state the \<open>Ref\<close> holds afterwards and the texts handed to
  \<open>sendMessage\<close>, in order (a text is listed whether or not its delivery succeeds).
  \<open>caught\<close> is the \<open>catchAll\<close> at the end of both checks: a failure of \<open>fetchPage\<close>,
  of the extraction or of \<open>sendMessage\<close> becomes a result of status \<open>error\<close>, and the
  state keeps what was written before the failure. \<open>NotifyError\<close> stands for any failure
  of \<open>sendMessage\<close>. An exception thrown by the body of the check itself, which
  \<open>JSON.parse\<close> and \<open>new Set\<close> can do, is no such failure but a defect, and
  \<open>catchAll\<close> lets a defect through: the check returns no result, which is the \<open>None\<close>
  of \<open>died\<close>, nothing was written or sent, and the program ends before \<open>runMonitors\<close>
  saves the state. The calls of \<open>Effect.log\<close> are left out. The model is of one check
  running alone: while several checks run, the \<open>Ref\<close> changes between the read and the
  write of a check at the keys of the other monitors only.
\<close>

type_synonym outcome = "MonitorResult option \<times> StateMap \<times> string list"

definition monitorKey :: "'el runtime \<Rightarrow> string \<Rightarrow> string" where
  "monitorKey rt name = sha256hex rt name"

definition hashData :: "'el runtime \<Rightarrow> (string \<times> string option) list \<Rightarrow> string" where
  "hashData rt data = sha256hex rt (JSON_stringify_fields data)"

definition plain :: "string \<Rightarrow> status \<Rightarrow> MonitorResult" where
  "plain name st =
     \<lparr>res_name = name, res_status = st, res_count = None, res_newItems = None, res_error = None\<rparr>"

definition caught :: "string \<Rightarrow> failure \<Rightarrow> StateMap \<Rightarrow> string list \<Rightarrow> outcome" where
  "caught name e state sent = (Some ((plain name error)\<lparr>res_error := Some e\<rparr>), state, sent)"

definition died :: "StateMap \<Rightarrow> outcome" where
  "died state = (None, state, [])"

definition allIdsOf :: "(string \<times> ScrapedItem) list \<Rightarrow> string list" where
  "allIdsOf itemById = sort (map fst itemById)"

definition candidatesOf :: "'el runtime \<Rightarrow> rat option \<Rightarrow> (string \<times> ScrapedItem) list
    \<Rightarrow> ScrapedItem list" where
  "candidatesOf rt limit itemById =
     filter (\<lambda>item. case limit of
                      None \<Rightarrow> True
                    | Some mp \<Rightarrow> priceAtMost (parsePrice rt (getField (item_fields item) ''price'')) mp)
            (map snd itemById)"

text \<open>\<open>new Map(perPage.flat().map((item) => [item.id, item]))\<close>\<close>

definition itemByIdOf :: "ScrapedItem list list \<Rightarrow> (string \<times> ScrapedItem) list" where
  "itemByIdOf perPage = Map_new (map (\<lambda>item. (item_id item, item)) (concat perPage))"

definition nowMonitoringList :: "'el runtime \<Rightarrow> ListMonitor \<Rightarrow> string list \<Rightarrow> string" where
  "nowMonitoringList rt monitor allIds =
     eyes @ '' <b>Now monitoring:</b> '' @ esc (lm_name monitor) @ [NL] @
     ''Tracking <b>'' @ showNat (length allIds) @ ''</b> items across '' @
     showNat (length (urls monitor)) @ '' page(s)'' @
     (case maxPrice monitor of
        Some mp \<Rightarrow> '' (price filter: under $'' @ numberToString rt mp @ '')''
      | None \<Rightarrow> []) @
     ''.''"

text \<open>\<open>checkListItems\<close> is \<open>checkListMonitor\<close> from the line that merges the pages'
  items on; \<open>checkListMonitor\<close> fetches and extracts the pages first.\<close>

definition checkListItems :: "'el runtime \<Rightarrow> ListMonitor \<Rightarrow> ScrapedItem list list \<Rightarrow> StateMap
    \<Rightarrow> outcome" where
  "checkListItems rt monitor perPage state =
     (let name = lm_name monitor;
          itemById = itemByIdOf perPage
      in if length itemById = 0 then (Some (plain name unchanged), state, [])
         else
           let candidates = candidatesOf rt (maxPrice monitor) itemById;
               allIds = allIdsOf itemById;
               candidateById = Map_new (map (\<lambda>i. (item_id i, i)) candidates);
               candidateIds = sort (map fst candidateById);
               key = monitorKey rt name
           in case map_of state key of
                None \<Rightarrow>
                  (let state1 = AList.update key (JSON_stringify_ids allIds) state;
                       msg = nowMonitoringList rt monitor allIds
                   in if telegramSend rt msg
                      then (Some ((plain name initialized)\<lparr>res_count := Some (length allIds)\<rparr>), state1, [msg])
                      else caught name NotifyError state1 [msg])
              | Some prevRaw \<Rightarrow>
                  (case JSON_parse rt prevRaw of
                     None \<Rightarrow> died state
                   | Some prevIds \<Rightarrow>
                       (case new_Set prevIds of
                          Inl e \<Rightarrow> died state
                        | Inr prevSet \<Rightarrow>
                            let newItems = map (\<lambda>i. the (Map_get candidateById i))
                                  (filter (\<lambda>i. \<not> Set_has prevSet (JString i)) candidateIds);
                                state1 = AList.update key (JSON_stringify_ids allIds) state
                            in if length newItems = 0 then (Some (plain name unchanged), state1, [])
                               else
                                 let msg = formatNewItems name newItems (sections monitor)
                                 in if telegramSend rt msg
                                    then (Some ((plain name new_items)\<lparr>res_newItems := Some newItems\<rparr>),
                                          state1, [msg])
                                    else caught name NotifyError state1 [msg])))"

text \<open>
  The new items in the words of the specification, to compare \<open>checkListItems\<close> with: the
  candidates whose id is absent from the previous id set, in ascending order of their ids.
\<close>

definition newItemsOf :: "json list \<Rightarrow> ScrapedItem list \<Rightarrow> ScrapedItem list" where
  "newItemsOf prevSet candidates =
     filter (\<lambda>c. JString (item_id c) \<notin> set prevSet) (sort_key item_id candidates)"

definition extractOptsOf :: "ListMonitor \<Rightarrow> ExtractOptions" where
  "extractOptsOf monitor =
     \<lparr>baseUrl = baseUrl monitor, idAttribute = idAttribute monitor,
      urlTemplate = urlTemplate monitor, fieldTransforms = fieldTransforms monitor\<rparr>"

definition fetchAndExtract :: "'el runtime \<Rightarrow> ListMonitor \<Rightarrow> failure + ScrapedItem list list" where
  "fetchAndExtract rt monitor =
     (case Effect_all (map (fetchPage rt) (urls monitor)) of
        Inl e \<Rightarrow> Inl e
      | Inr pages \<Rightarrow>
          Effect_all (map (\<lambda>html. extractItemList rt html (itemSelector monitor)
                                    (lm_fields monitor) (extractOptsOf monitor)) pages))"

definition checkListMonitor :: "'el runtime \<Rightarrow> ListMonitor \<Rightarrow> StateMap \<Rightarrow> outcome" where
  "checkListMonitor rt monitor state =
     (case fetchAndExtract rt monitor of
        Inl e \<Rightarrow> caught (lm_name monitor) e state []
      | Inr perPage \<Rightarrow> checkListItems rt monitor perPage state)"

definition fieldLines :: "(string \<times> string option) list \<Rightarrow> string" where
  "fieldLines current =
     join [NL] (map (\<lambda>(k, v). ''  '' @ bullet @ '' '' @ esc k @ '': '' @
                      esc (case v of Some x \<Rightarrow> x | None \<Rightarrow> ''(not found)'')) current)"

definition viewPage :: "string \<Rightarrow> string" where
  "viewPage url = ''<a href='' @ [DQ] @ url @ [DQ] @ ''>View page</a>''"

definition nowMonitoringFields :: "FieldsMonitor \<Rightarrow> (string \<times> string option) list \<Rightarrow> string" where
  "nowMonitoringFields monitor current =
     eyes @ '' <b>Now monitoring:</b> '' @ esc (fm_name monitor) @ [NL] @ fieldLines current @
     [NL, NL] @ viewPage (fm_url monitor)"

definition changeDetected :: "FieldsMonitor \<Rightarrow> (string \<times> string option) list \<Rightarrow> string" where
  "changeDetected monitor current =
     bolt @ '' <b>Change detected:</b> '' @ esc (fm_name monitor) @ [NL] @ fieldLines current @
     [NL, NL] @ viewPage (fm_url monitor)"

definition checkFieldsSnapshot :: "'el runtime \<Rightarrow> FieldsMonitor \<Rightarrow> (string \<times> string option) list
    \<Rightarrow> StateMap \<Rightarrow> outcome" where
  "checkFieldsSnapshot rt monitor current state =
     (let name = fm_name monitor;
          currentHash = hashData rt current;
          key = monitorKey rt name
      in case map_of state key of
           None \<Rightarrow>
             (let state1 = AList.update key currentHash state;
                  msg = nowMonitoringFields monitor current
              in if telegramSend rt msg then (Some (plain name initialized), state1, [msg])
                 else caught name NotifyError state1 [msg])
         | Some prevHash \<Rightarrow>
             if prevHash \<noteq> currentHash
             then (let state1 = AList.update key currentHash state;
                       msg = changeDetected monitor current
                   in if telegramSend rt msg then (Some (plain name new_items), state1, [msg])
                      else caught name NotifyError state1 [msg])
             else (Some (plain name unchanged), state, []))"

definition checkFieldsMonitor :: "'el runtime \<Rightarrow> FieldsMonitor \<Rightarrow> StateMap \<Rightarrow> outcome" where
  "checkFieldsMonitor rt monitor state =
     (case fetchPage rt (fm_url monitor) of
        Inl e \<Rightarrow> caught (fm_name monitor) e state []
      | Inr html \<Rightarrow>
          (case extractFields rt html (selectors monitor) of
             Inl e \<Rightarrow> caught (fm_name monitor) e state []
           | Inr current \<Rightarrow> checkFieldsSnapshot rt monitor current state))"

section \<open>A parser for the arrays the list monitor writes\<close>

text \<open>
  \<open>parseIdArray\<close> reads a JSON array of strings written without white space, which is
  what \<open>JSON_stringify_ids\<close> writes. It is not the whole of \<open>JSON.parse\<close>: it shows that a
  parser exists that reads back every array of ids (\<open>parseIdArray_stringify\<close> below), and
  it is the \<open>JSON.parse\<close> of the runtime of the examples.
\<close>

definition unhex :: "char \<Rightarrow> nat option" where
  "unhex c =
     (let n = (of_char c :: nat)
      in if 48 \<le> n \<and> n \<le> 57 then Some (n - 48)
         else if 97 \<le> n \<and> n \<le> 102 then Some (n - 87)
         else if 65 \<le> n \<and> n \<le> 70 then Some (n - 55)
         else None)"

definition unescapeChar :: "char \<Rightarrow> char option" where
  "unescapeChar e =
     (if e = DQ then Some DQ
      else if e = BSL then Some BSL
      else if e = CHR ''/'' then Some (CHR ''/'')
      else if e = CHR ''b'' then Some (CHR 0x08)
      else if e = CHR ''t'' then Some (CHR 0x09)
      else if e = CHR ''n'' then Some (CHR 0x0A)
      else if e = CHR ''f'' then Some (CHR 0x0C)
      else if e = CHR ''r'' then Some (CHR 0x0D)
      else None)"

definition unicodeEscape :: "char \<Rightarrow> char \<Rightarrow> char \<Rightarrow> char \<Rightarrow> char option" where
  "unicodeEscape h1 h2 h3 h4 =
     (case (unhex h1, unhex h2, unhex h3, unhex h4) of
        (Some a, Some b, Some c, Some d) \<Rightarrow>
          if a = 0 \<and> b = 0 then Some (char_of (16 * c + d)) else None
      | _ \<Rightarrow> None)"

definition consString :: "char \<Rightarrow> (string \<times> string) option \<Rightarrow> (string \<times> string) option" where
  "consString c r = map_option (\<lambda>(str, rest). (c # str, rest)) r"

fun parseStringBody :: "string \<Rightarrow> (string \<times> string) option" where
  "parseStringBody [] = None"
| "parseStringBody [c] = (if c = DQ then Some ([], []) else None)"
| "parseStringBody (c # e # cs) =
     (if c = DQ then Some ([], e # cs)
      else if c = BSL then
        (if e = CHR ''u'' then
           (case cs of
              h1 # h2 # h3 # h4 # r \<Rightarrow>
                (case unicodeEscape h1 h2 h3 h4 of
                   Some ch \<Rightarrow> consString ch (parseStringBody r)
                 | None \<Rightarrow> None)
            | _ \<Rightarrow> None)
         else (case unescapeChar e of
                 Some ch \<Rightarrow> consString ch (parseStringBody cs)
               | None \<Rightarrow> None))
      else if (of_char c :: nat) < 32 then None
      else consString c (parseStringBody (e # cs)))"

function parseItems :: "string \<Rightarrow> string list option" where
  "parseItems [] = None"
| "parseItems (q # cs) =
     (if q = DQ then
        (case parseStringBody cs of
           None \<Rightarrow> None
         | Some (str, rest) \<Rightarrow>
             (case rest of
                [] \<Rightarrow> None
              | d # r \<Rightarrow>
                  if d = CHR '','' then map_option ((#) str) (parseItems r)
                  else if d = CHR '']'' \<and> r = [] then Some [str]
                  else None))
      else None)"
  by pat_completeness auto
termination
proof (relation "measure length")
  have shorter: "parseStringBody s = Some (str, rest) \<Longrightarrow> length rest \<le> length s" for s str rest
  proof (induction s arbitrary: str rest rule: parseStringBody.induct)
    case 1
    then show ?case by simp
  next
    case (2 c)
    then show ?case by (simp split: if_splits)
  next
    case (3 c e cs)
    then show ?case
      by (fastforce simp: consString_def split: if_splits list.splits option.splits)
  qed
  show "wf (measure length)" by simp
  show "(r, q # cs) \<in> measure length"
    if "parseStringBody cs = Some x2" "(x, y) = x2" "y = d # r" for q cs x2 x y d r
    using shorter [of cs x y] that by simp
qed

definition parseIdArray :: "string \<Rightarrow> string list option" where
  "parseIdArray s =
     (case s of
        [] \<Rightarrow> None
      | c # cs \<Rightarrow>
          if c = CHR ''['' then (if cs = '']'' then Some [] else parseItems cs)
          else None)"

section \<open>Splitting a message for Telegram\<close>

text \<open>
  \<open>chunkTelegramMessage\<close>. The inner loop \<open>for (i = 0; i < line.length; i += maxLen)\<close>
  does not end when \<open>maxLen\<close> is 0, so it is a partial function and the result is an option:
  \<open>None\<close> is a call that never returns. The loop over the lines carries \<open>chunks\<close> and
  \<open>current\<close>; the test \<open>if (current)\<close> is \<open>current \<noteq> []\<close>.
\<close>

partial_function (option) sliceLoop :: "string \<Rightarrow> nat \<Rightarrow> nat \<Rightarrow> string list \<Rightarrow> string list option" where
  "sliceLoop line maxLen i chunks =
     (if i < length line
      then sliceLoop line maxLen (i + maxLen) (chunks @ [take maxLen (drop i line)])
      else Some chunks)"

declare sliceLoop.simps [code]

fun chunkLoop :: "nat \<Rightarrow> string list \<Rightarrow> string list \<Rightarrow> string \<Rightarrow> string list option" where
  "chunkLoop maxLen [] chunks current =
     Some (if current \<noteq> [] then chunks @ [current] else chunks)"
| "chunkLoop maxLen (line # rest) chunks current =
     (let next = (if current \<noteq> [] then current @ [NL] @ line else line)
      in if length next \<le> maxLen then chunkLoop maxLen rest chunks next
         else
           let chunks1 = (if current \<noteq> [] then chunks @ [current] else chunks)
           in if length line \<le> maxLen then chunkLoop maxLen rest chunks1 line
              else (case sliceLoop line maxLen 0 chunks1 of
                      None \<Rightarrow> None
                    | Some chunks2 \<Rightarrow> chunkLoop maxLen rest chunks2 []))"

definition chunkTelegramMessage :: "string \<Rightarrow> nat \<Rightarrow> string list option" where
  "chunkTelegramMessage txt maxLen =
     (if length txt \<le> maxLen then Some [txt]
      else chunkLoop maxLen (split NL txt) [] [])"

text \<open>
  Hard slicing in the words of the specification, to compare \<open>sliceLoop\<close> with: the
  text cut into pieces of \<open>n\<close> characters, the last one maybe shorter.
\<close>

function slices :: "nat \<Rightarrow> string \<Rightarrow> string list" where
  "slices n s = (if n = 0 \<or> s = [] then [] else take n s # slices n (drop n s))"
  by pat_completeness auto
termination
  by (relation "measure (\<lambda>(n, s). length s)") auto

declare slices.simps [simp del]

text \<open>
  What joining the parts gives back, in the words of the amended specification. An empty
  line is left out, with its newline, when it would begin a part: when it arrives while the
  current part is empty (at the start of the text, after a line that was sliced, after
  an empty line that was left out) or is \<open>maxLen\<close> long, so that it has no room for
  the newline. \<open>keptLines\<close> lists the lines that stay; it is told how long the current
  part is, which is 0 at the start. \<open>pieces\<close> puts the slices of a line in the place
  of every line that is longer than \<open>maxLen\<close>.
\<close>

fun keptLines :: "nat \<Rightarrow> nat \<Rightarrow> string list \<Rightarrow> string list" where
  "keptLines maxLen cur [] = []"
| "keptLines maxLen cur (line # rest) =
     (if maxLen < length line then line # keptLines maxLen 0 rest
      else if cur \<noteq> 0 \<and> cur + 1 + length line \<le> maxLen
        then line # keptLines maxLen (cur + 1 + length line) rest
      else if line = [] then keptLines maxLen 0 rest
      else line # keptLines maxLen (length line) rest)"

definition pieces :: "nat \<Rightarrow> string list \<Rightarrow> string list" where
  "pieces maxLen lines =
     concat (map (\<lambda>line. if maxLen < length line then slices maxLen line else [line]) lines)"

definition TELEGRAM_MAX_MESSAGE_LEN :: nat where
  "TELEGRAM_MAX_MESSAGE_LEN = 4096"

definition TELEGRAM_SAFE_CHUNK_LEN :: nat where
  "TELEGRAM_SAFE_CHUNK_LEN = 3800"

section \<open>A runtime for the examples\<close>

text \<open>
  A small runtime on which the checks can be evaluated. A page is named by its URL and is a
  list of elements; an element is a table from attribute names and selectors to strings.
  The digest is the identity, \<open>JSON.parse\<close> is \<open>parseIdArray\<close>, a number is printed
  without its fraction, and \<open>delivered\<close> tells whether Telegram accepts a message.
  \<open>parseFloat\<close> is \<open>decimalValue\<close>, the value of the decimal itself: it is what
  \<open>parseFloat\<close> returns whenever that value is a double, as the prices of the examples
  are.
\<close>

definition digitVal :: "char \<Rightarrow> nat" where
  "digitVal c = of_char c - 48"

definition decimal :: "string \<Rightarrow> nat" where
  "decimal ds = foldl (\<lambda>n d. 10 * n + digitVal d) 0 ds"

definition decimalValue :: "string \<Rightarrow> number" where
  "decimalValue s =
     (let ip = takeWhile isDigit s;
          fp = (case dropWhile isDigit s of
                  d # r \<Rightarrow> if d = CHR ''.'' then takeWhile isDigit r else []
                | [] \<Rightarrow> [])
      in if ip = [] \<and> fp = [] then NaN
         else Num (of_nat (decimal ip) + of_nat (decimal fp) / 10 ^ length fp))"

type_synonym element = "(string \<times> string) list"

definition demoRuntime :: "(string \<times> element list) list \<Rightarrow> bool \<Rightarrow> element runtime" where
  "demoRuntime pages delivered =
     \<lparr>httpGet = (\<lambda>url. if map_of pages url = None then None else Some url),
      cheerioSelect = (\<lambda>html sel. map_of pages html),
      cheerioFindAttr = (\<lambda>el sel attr. Some (map_of el (sel @ ''@'' @ attr))),
      cheerioFindText = (\<lambda>el sel. Some (case map_of el sel of Some t \<Rightarrow> t | None \<Rightarrow> [])),
      cheerioAttr = (\<lambda>el attr. map_of el attr),
      cheerioText = (\<lambda>html sel.
         case map_of pages html of
           Some (el # _) \<Rightarrow> Some (case map_of el sel of Some t \<Rightarrow> t | None \<Rightarrow> [])
         | _ \<Rightarrow> Some []),
      newURL = (\<lambda>raw base. Some (base @ raw)),
      sha256hex = (\<lambda>s. s),
      JSON_parse = (\<lambda>s. map_option (\<lambda>ids. JArray (map JString ids)) (parseIdArray s)),
      parseFloat = decimalValue,
      numberToString = (\<lambda>r. showNat (nat \<lfloor>r\<rfloor>)),
      telegramSend = (\<lambda>msg. delivered)\<rparr>"

definition demoElement :: "string \<Rightarrow> string \<Rightarrow> string \<Rightarrow> element" where
  "demoElement ident title price = [(''data-id'', ident), (''.title'', title), (''.price'', price)]"

definition demoMonitor :: "string list \<Rightarrow> rat option \<Rightarrow> ListMonitor" where
  "demoMonitor pageUrls limit =
     \<lparr>baseUrl = None, idAttribute = Some ''data-id'', urlTemplate = Some ''https://shop.test/itm/{id}'',
      fieldTransforms = None,
      lm_name = ''shop'', urls = pageUrls, itemSelector = ''li.item'',
      lm_fields = [(''title'', ''.title''), (''price'', ''.price'')],
      maxPrice = limit, sections = None\<rparr>"

definition demoFieldsMonitor :: FieldsMonitor where
  "demoFieldsMonitor = \<lparr>fm_name = ''page'', fm_url = ''p1'', selectors = [(''title'', ''.title'')]\<rparr>"

definition examplePages :: "(string \<times> element list) list" where
  "examplePages =
     [(''p1'', [demoElement ''b'' ''Batman 2'' ''$5.00'', demoElement ''a'' ''Avengers 1'' ''$75.00'']),
      (''p2'', [demoElement ''c'' ''Captain 3'' ''$1.00''])]"

definition exampleItem :: "string \<Rightarrow> string \<Rightarrow> string \<Rightarrow> ScrapedItem" where
  "exampleItem ident title price =
     \<lparr>item_id = ident, item_url = ''https://shop.test/itm/'' @ ident,
      item_fields = [(''title'', Some title), (''price'', Some price)]\<rparr>"

text \<open>A page with three elements: one with an id, one without the id attribute, one whose
  id attribute is empty.\<close>

definition mixedPages :: "(string \<times> element list) list" where
  "mixedPages =
     [(''p1'', [demoElement ''b'' ''Batman 2'' ''$5.00'',
               [(''.title'', ''No id''), (''.price'', ''$2.00'')],
               demoElement [] ''Empty id'' ''$3.00''])]"

text \<open>
  The one property of \<open>JSON.parse\<close> that the claims about two runs in a row rest on: it
  reads back the array of strings that \<open>JSON.stringify\<close> wrote.
\<close>

definition readsBackIds :: "'el runtime \<Rightarrow> bool" where
  "readsBackIds rt = (\<forall>ids. JSON_parse rt (JSON_stringify_ids ids) = Some (JArray (map JString ids)))"

text \<open>
  The data model of the state map: the entry of a list monitor, when there is one, is the
  JSON array of the ids of an earlier run.
\<close>

definition writtenByListMonitor :: "StateMap \<Rightarrow> string \<Rightarrow> bool" where
  "writtenByListMonitor state key =
     (case map_of state key of None \<Rightarrow> True | Some raw \<Rightarrow> (\<exists>ids. raw = JSON_stringify_ids ids))"

section \<open>Lemmas about the merged map and the list check\<close>

subsection \<open>Maps in insertion order\<close>

lemma foldl_update_keys:
  "fst ` set (foldl (\<lambda>m (k, v). AList.update k v m) m es) = fst ` set m \<union> fst ` set es"
proof (induction es arbitrary: m)
  case Nil
  then show ?case by simp
next
  case (Cons e es)
  obtain k v where e: "e = (k, v)" by (cases e)
  have "fst ` set (AList.update k v m) = insert k (fst ` set m)"
    using AList.dom_update [of k v m] by simp
  with Cons.IH [of "AList.update k v m"] e show ?case by auto
qed

lemma foldl_update_distinct:
  "distinct (map fst m) \<Longrightarrow> distinct (map fst (foldl (\<lambda>m (k, v). AList.update k v m) m es))"
proof (induction es arbitrary: m)
  case Nil
  then show ?case by simp
next
  case (Cons e es)
  obtain k v where e: "e = (k, v)" by (cases e)
  from Cons.prems have "distinct (map fst (AList.update k v m))"
    by (rule AList.distinct_update)
  from Cons.IH [OF this] e show ?case by simp
qed

lemma foldl_update_mem:
  "(k, v) \<in> set (foldl (\<lambda>m (k, v). AList.update k v m) m es) \<Longrightarrow> (k, v) \<in> set m \<or> (k, v) \<in> set es"
proof (induction es arbitrary: m)
  case Nil
  then show ?case by simp
next
  case (Cons e es)
  obtain k' v' where e: "e = (k', v')" by (cases e)
  from Cons.prems e have "(k, v) \<in> set (AList.update k' v' m) \<or> (k, v) \<in> set es"
    using Cons.IH [of "AList.update k' v' m"] by simp
  moreover have "(k, v) \<in> set (AList.update k' v' m) \<Longrightarrow> (k, v) \<in> set m \<or> (k, v) = (k', v')"
    by (induction m) (auto split: if_splits)
  ultimately show ?case using e by auto
qed

lemma foldl_update_append:
  "distinct (map fst (m @ es)) \<Longrightarrow> foldl (\<lambda>m (k, v). AList.update k v m) m es = m @ es"
proof (induction es arbitrary: m)
  case Nil
  then show ?case by simp
next
  case (Cons e es)
  obtain k v where e: "e = (k, v)" by (cases e)
  from Cons.prems e have notin: "k \<notin> fst ` set m" by auto
  have upd: "AList.update k v m = m @ [(k, v)]"
    using notin by (induction m) auto
  from Cons.prems e have "distinct (map fst ((m @ [(k, v)]) @ es))" by simp
  from Cons.IH [OF this] upd e show ?case by simp
qed

lemma Map_new_keys: "fst ` set (Map_new es) = fst ` set es"
  unfolding Map_new_def using foldl_update_keys [of "[]" es] by simp

lemma Map_new_distinct: "distinct (map fst (Map_new es))"
  unfolding Map_new_def by (rule foldl_update_distinct) simp

lemma Map_new_mem: "(k, v) \<in> set (Map_new es) \<Longrightarrow> (k, v) \<in> set es"
  unfolding Map_new_def using foldl_update_mem [of k v "[]" es] by simp

lemma Map_new_id: "distinct (map fst es) \<Longrightarrow> Map_new es = es"
  unfolding Map_new_def using foldl_update_append [of "[]" es] by simp

lemma Map_new_Nil_iff: "Map_new es = [] \<longleftrightarrow> es = []"
proof
  assume "Map_new es = []"
  then have "fst ` set es = {}" using Map_new_keys [of es] by simp
  then show "es = []" by simp
next
  assume "es = []"
  then show "Map_new es = []" by (simp add: Map_new_def)
qed

subsection \<open>Sorting by a key\<close>

lemma map_insort_key: "map f (insort_key f x ys) = insort (f x) (map f ys)"
  by (induction ys) auto

lemma map_sort_key: "map f (sort_key f xs) = sort (map f xs)"
  by (induction xs) (simp_all add: map_insort_key)

lemma pick_by_key:
  assumes d: "distinct (map f cs)"
  shows "map (\<lambda>i. the (map_of (map (\<lambda>c. (f c, c)) cs) i)) (filter Q (sort (map f cs)))
       = filter (\<lambda>c. Q (f c)) (sort_key f cs)"
proof -
  let ?g = "\<lambda>i. the (map_of (map (\<lambda>c. (f c, c)) cs) i)"
  have dk: "distinct (map fst (map (\<lambda>c. (f c, c)) cs))"
    using d by (simp add: comp_def)
  have g: "?g (f c) = c" if "c \<in> set cs" for c
  proof -
    from that have "(f c, c) \<in> set (map (\<lambda>c. (f c, c)) cs)" by auto
    with dk have "map_of (map (\<lambda>c. (f c, c)) cs) (f c) = Some c"
      by (rule map_of_is_SomeI)
    then show ?thesis by simp
  qed
  have "map ?g (filter Q (sort (map f cs))) = map ?g (filter Q (map f (sort_key f cs)))"
    by (simp add: map_sort_key)
  also have "\<dots> = map (\<lambda>c. ?g (f c)) (filter (\<lambda>c. Q (f c)) (sort_key f cs))"
    by (simp add: filter_map comp_def)
  also have "\<dots> = map (\<lambda>c. c) (filter (\<lambda>c. Q (f c)) (sort_key f cs))"
    by (rule map_cong) (auto simp: g)
  finally show ?thesis by simp
qed

subsection \<open>The merged item map\<close>

lemma itemByIdOf_mem: "(k, v) \<in> set (itemByIdOf perPage) \<Longrightarrow> k = item_id v \<and> v \<in> set (concat perPage)"
  unfolding itemByIdOf_def by (drule Map_new_mem) auto

lemma itemByIdOf_keys: "set (map fst (itemByIdOf perPage)) = item_id ` set (concat perPage)"
  unfolding itemByIdOf_def using Map_new_keys [of "map (\<lambda>item. (item_id item, item)) (concat perPage)"]
  by (simp add: image_image)

lemma itemByIdOf_distinct: "distinct (map fst (itemByIdOf perPage))"
  unfolding itemByIdOf_def by (rule Map_new_distinct)

lemma itemByIdOf_Nil_iff: "itemByIdOf perPage = [] \<longleftrightarrow> concat perPage = []"
  unfolding itemByIdOf_def by (simp add: Map_new_Nil_iff)

lemma itemByIdOf_values_ids: "map item_id (map snd (itemByIdOf perPage)) = map fst (itemByIdOf perPage)"
proof -
  have "item_id (snd p) = fst p" if "p \<in> set (itemByIdOf perPage)" for p
    using itemByIdOf_mem [of "fst p" "snd p" perPage] that by simp
  then show ?thesis by simp
qed

lemma candidatesOf_subset: "set (candidatesOf rt limit itemById) \<subseteq> snd ` set itemById"
  unfolding candidatesOf_def by auto

lemma candidatesOf_distinct: "distinct (map item_id (candidatesOf rt limit (itemByIdOf perPage)))"
proof -
  have "distinct (map item_id (map snd (itemByIdOf perPage)))"
    by (simp only: itemByIdOf_values_ids itemByIdOf_distinct)
  then show ?thesis
    unfolding candidatesOf_def by (simp add: distinct_map_filter)
qed

lemma candidate_ids_subset:
  "item_id ` set (candidatesOf rt limit (itemByIdOf perPage)) \<subseteq> set (allIdsOf (itemByIdOf perPage))"
proof
  fix i assume "i \<in> item_id ` set (candidatesOf rt limit (itemByIdOf perPage))"
  then obtain c where c: "c \<in> set (candidatesOf rt limit (itemByIdOf perPage))" and i: "i = item_id c" by auto
  from c candidatesOf_subset obtain k where "(k, c) \<in> set (itemByIdOf perPage)" by fastforce
  with itemByIdOf_mem [of k c perPage] i show "i \<in> set (allIdsOf (itemByIdOf perPage))"
    unfolding allIdsOf_def by force
qed

subsection \<open>The list check in closed form\<close>

lemma checkListItems_empty:
  assumes "itemByIdOf perPage = []"
  shows "checkListItems rt m perPage s = (Some (plain (lm_name m) unchanged), s, [])"
  using assms by (simp add: checkListItems_def)

lemma checkListItems_first:
  assumes "itemByIdOf perPage \<noteq> []" and "map_of s (monitorKey rt (lm_name m)) = None"
  shows "checkListItems rt m perPage s =
     (let allIds = allIdsOf (itemByIdOf perPage);
          s1 = AList.update (monitorKey rt (lm_name m)) (JSON_stringify_ids allIds) s;
          msg = nowMonitoringList rt m allIds
      in if telegramSend rt msg
         then (Some ((plain (lm_name m) initialized)\<lparr>res_count := Some (length allIds)\<rparr>), s1, [msg])
         else caught (lm_name m) NotifyError s1 [msg])"
  using assms by (simp add: checkListItems_def Let_def)

lemma newItems_closed:
  "map (\<lambda>i. the (Map_get (Map_new (map (\<lambda>i. (item_id i, i)) (candidatesOf rt limit (itemByIdOf perPage)))) i))
     (filter (\<lambda>i. \<not> Set_has prev (JString i))
        (sort (map fst (Map_new (map (\<lambda>i. (item_id i, i)) (candidatesOf rt limit (itemByIdOf perPage)))))))
   = newItemsOf prev (candidatesOf rt limit (itemByIdOf perPage))"
proof -
  let ?cs = "candidatesOf rt limit (itemByIdOf perPage)"
  have d: "distinct (map item_id ?cs)" by (rule candidatesOf_distinct)
  then have "distinct (map fst (map (\<lambda>i. (item_id i, i)) ?cs))" by (simp add: comp_def)
  then have m: "Map_new (map (\<lambda>i. (item_id i, i)) ?cs) = map (\<lambda>i. (item_id i, i)) ?cs"
    by (rule Map_new_id)
  show ?thesis
    unfolding m Map_get_def Set_has_def newItemsOf_def
    using pick_by_key [OF d, of "\<lambda>i. JString i \<notin> set prev"] by (simp add: comp_def)
qed

lemma checkListItems_prior:
  assumes "itemByIdOf perPage \<noteq> []"
    and "map_of s (monitorKey rt (lm_name m)) = Some raw"
    and "JSON_parse rt raw = Some v"
    and "new_Set v = Inr prev"
  shows "checkListItems rt m perPage s =
     (let new = newItemsOf prev (candidatesOf rt (maxPrice m) (itemByIdOf perPage));
          s1 = AList.update (monitorKey rt (lm_name m))
                 (JSON_stringify_ids (allIdsOf (itemByIdOf perPage))) s;
          msg = formatNewItems (lm_name m) new (sections m)
      in if new = [] then (Some (plain (lm_name m) unchanged), s1, [])
         else if telegramSend rt msg
           then (Some ((plain (lm_name m) new_items)\<lparr>res_newItems := Some new\<rparr>), s1, [msg])
           else caught (lm_name m) NotifyError s1 [msg])"
  using assms by (simp add: checkListItems_def Let_def newItems_closed)

lemma checkListItems_unreadable:
  assumes "itemByIdOf perPage \<noteq> []"
    and "map_of s (monitorKey rt (lm_name m)) = Some raw"
    and "JSON_parse rt raw = None \<or> (\<exists>v. JSON_parse rt raw = Some v \<and> new_Set v = Inl e)"
  shows "checkListItems rt m perPage s = died s"
  using assms by (auto simp: checkListItems_def Let_def)

section \<open>Reading back an array of ids\<close>

lemma unhex_hexDigit: "n < 16 \<Longrightarrow> unhex (hexDigit n) = Some n"
  by (auto simp: unhex_def hexDigit_def Let_def)

lemma unicodeEscape_low:
  assumes "(of_char c :: nat) < 32"
  shows "unicodeEscape (CHR ''0'') (CHR ''0'') (hexDigit ((of_char c :: nat) div 16))
           (hexDigit ((of_char c :: nat) mod 16)) = Some c"
proof -
  let ?n = "of_char c :: nat"
  have a: "unhex (hexDigit (?n div 16)) = Some (?n div 16)"
    using assms by (intro unhex_hexDigit) simp
  have b: "unhex (hexDigit (?n mod 16)) = Some (?n mod 16)"
    by (intro unhex_hexDigit) simp
  have z: "unhex (CHR ''0'') = Some 0" by (simp add: unhex_def)
  have "char_of (16 * (?n div 16) + ?n mod 16) = c" by simp
  with a b z show ?thesis by (simp add: unicodeEscape_def)
qed

lemma parseStringBody_escapeChar:
  assumes "t \<noteq> []"
  shows "parseStringBody (escapeChar c @ t) = consString c (parseStringBody t)"
proof -
  obtain e cs where t: "t = e # cs" using assms by (cases t) auto
  consider (dq) "c = DQ" | (bsl) "c = BSL" | (b) "c = CHR 0x08" | (t) "c = CHR 0x09"
    | (n) "c = CHR 0x0A" | (f) "c = CHR 0x0C" | (r) "c = CHR 0x0D"
    | (low) "c \<noteq> DQ" "c \<noteq> BSL" "c \<noteq> CHR 0x08" "c \<noteq> CHR 0x09" "c \<noteq> CHR 0x0A"
        "c \<noteq> CHR 0x0C" "c \<noteq> CHR 0x0D" "(of_char c :: nat) < 32"
    | (plain) "c \<noteq> DQ" "c \<noteq> BSL" "c \<noteq> CHR 0x08" "c \<noteq> CHR 0x09" "c \<noteq> CHR 0x0A"
        "c \<noteq> CHR 0x0C" "c \<noteq> CHR 0x0D" "\<not> (of_char c :: nat) < 32"
    by blast
  then show ?thesis
  proof cases
    case dq
    then show ?thesis by (simp add: escapeChar_def unescapeChar_def t DQ_def BSL_def)
  next
    case bsl
    then show ?thesis by (simp add: escapeChar_def unescapeChar_def t DQ_def BSL_def)
  next
    case b
    then show ?thesis by (simp add: escapeChar_def unescapeChar_def t DQ_def BSL_def)
  next
    case t
    then show ?thesis by (simp add: escapeChar_def unescapeChar_def \<open>t = e # cs\<close> DQ_def BSL_def)
  next
    case n
    then show ?thesis by (simp add: escapeChar_def unescapeChar_def t DQ_def BSL_def)
  next
    case f
    then show ?thesis by (simp add: escapeChar_def unescapeChar_def t DQ_def BSL_def)
  next
    case r
    then show ?thesis by (simp add: escapeChar_def unescapeChar_def t DQ_def BSL_def)
  next
    case low
    then have "escapeChar c = [BSL, CHR ''u'', CHR ''0'', CHR ''0'',
        hexDigit ((of_char c :: nat) div 16), hexDigit ((of_char c :: nat) mod 16)]"
      by (simp add: escapeChar_def)
    then show ?thesis
      using unicodeEscape_low [OF low(8)] by (simp add: t DQ_def BSL_def)
  next
    case plain
    then have "escapeChar c = [c]" by (simp add: escapeChar_def)
    then show ?thesis using plain by (simp add: t)
  qed
qed

lemma parseStringBody_escaped:
  "parseStringBody (concat (map escapeChar s) @ DQ # rest) = Some (s, rest)"
proof (induction s)
  case Nil
  then show ?case by (cases rest) simp_all
next
  case (Cons c s)
  have "parseStringBody (escapeChar c @ (concat (map escapeChar s) @ DQ # rest))
      = consString c (parseStringBody (concat (map escapeChar s) @ DQ # rest))"
    by (rule parseStringBody_escapeChar) simp
  with Cons.IH show ?case by (simp add: consString_def)
qed

lemma parseItems_Quote:
  "parseItems (QuoteJSONString x @ d # r) =
     (if d = CHR '','' then map_option ((#) x) (parseItems r)
      else if d = CHR '']'' \<and> r = [] then Some [x] else None)"
  using parseStringBody_escaped [of x "d # r"] by (simp add: QuoteJSONString_def)

lemma parseItems_join:
  "parseItems (join '','' (map QuoteJSONString (x # xs)) @ '']'') = Some (x # xs)"
proof (induction xs arbitrary: x)
  case Nil
  show ?case using parseItems_Quote [of x "CHR '']''" "[]"] by simp
next
  case (Cons y ys)
  have "parseItems (QuoteJSONString x @ CHR '','' # (join '','' (map QuoteJSONString (y # ys)) @ '']''))
      = map_option ((#) x) (parseItems (join '','' (map QuoteJSONString (y # ys)) @ '']''))"
    by (subst parseItems_Quote) simp
  with Cons.IH [of y] show ?case by simp
qed

lemma parseIdArray_stringify: "parseIdArray (JSON_stringify_ids ids) = Some ids"
proof (cases ids)
  case Nil
  then show ?thesis by (simp add: parseIdArray_def JSON_stringify_ids_def)
next
  case (Cons x xs)
  have "join '','' (map QuoteJSONString (x # xs)) @ '']'' \<noteq> '']''"
    by (cases xs) (simp_all add: QuoteJSONString_def DQ_def)
  with parseItems_join [of x xs] Cons show ?thesis
    by (simp add: parseIdArray_def JSON_stringify_ids_def)
qed

lemma demoRuntime_readsBackIds: "readsBackIds (demoRuntime pages delivered)"
  by (simp add: readsBackIds_def demoRuntime_def parseIdArray_stringify)

section \<open>The list monitor: empty extraction and new items\<close>

text \<open>
  Claim C5. Whenever the merged item map of a list monitor run is empty, the check returns
  status \<open>unchanged\<close>, hands no text to \<open>sendMessage\<close> and returns the state map as it
  was, whether or not the state holds an entry for the monitor (the state is arbitrary).
\<close>

theorem empty_extraction_keeps_state:
  assumes "fetchAndExtract rt monitor = Inr perPage"
    and "itemByIdOf perPage = []"
  shows "checkListMonitor rt monitor state = (Some (plain (lm_name monitor) unchanged), state, [])"
proof -
  from assms(2) have "checkListItems rt monitor perPage state = (Some (plain (lm_name monitor) unchanged), state, [])"
    by (rule checkListItems_empty)
  with assms(1) show ?thesis by (simp add: checkListMonitor_def)
qed

theorem empty_extraction_keeps_state_witness:
  "fetchAndExtract (demoRuntime [(''p1'', [])] True) (demoMonitor [''p1''] None) = Inr [[]]
   \<and> itemByIdOf [[]] = []
   \<and> checkListMonitor (demoRuntime [(''p1'', [])] True) (demoMonitor [''p1''] None)
        [(''shop'', JSON_stringify_ids [''a''])]
      = (Some (plain ''shop'' unchanged), [(''shop'', JSON_stringify_ids [''a''])], [])"
proof -
  have f: "fetchAndExtract (demoRuntime [(''p1'', [])] True) (demoMonitor [''p1''] None) = Inr [[]]"
    by code_simp
  have e: "itemByIdOf [[]] = []"
    by (simp add: itemByIdOf_def Map_new_def)
  from empty_extraction_keeps_state [OF f e] f e show ?thesis
    by (simp add: demoMonitor_def)
qed

text \<open>The extraction of the example pages, used by the examples below.\<close>

lemma example_extract:
  "fetchAndExtract (demoRuntime examplePages d) (demoMonitor [''p1'', ''p2''] limit)
     = Inr [[exampleItem ''b'' ''Batman 2'' ''$5.00'', exampleItem ''a'' ''Avengers 1'' ''$75.00''],
            [exampleItem ''c'' ''Captain 3'' ''$1.00'']]"
  by code_simp




section \<open>What a check writes, and the run after it\<close>

lemma allIdsOf_sorted: "sorted (allIdsOf (itemByIdOf perPage))"
  by (simp add: allIdsOf_def)

lemma allIdsOf_distinct: "distinct (allIdsOf (itemByIdOf perPage))"
  by (simp add: allIdsOf_def itemByIdOf_distinct)

lemma allIdsOf_set: "set (allIdsOf (itemByIdOf perPage)) = item_id ` set (concat perPage)"
  using itemByIdOf_keys [of perPage] by (simp add: allIdsOf_def)

lemma newItemsOf_known:
  assumes "item_id ` set cs \<subseteq> set ids"
  shows "newItemsOf (map JString ids) cs = []"
proof -
  have "JString (item_id c) \<in> set (map JString ids)" if "c \<in> set cs" for c
    using assms that by auto
  then show ?thesis by (simp add: newItemsOf_def filter_empty_conv)
qed

lemma newItemsOf_subset: "set (newItemsOf prev cs) \<subseteq> set cs"
  by (auto simp: newItemsOf_def)

lemma checkListItems_state:
  "fst (snd (checkListItems rt m perPage s)) =
     (if itemByIdOf perPage = [] then s
      else (case map_of s (monitorKey rt (lm_name m)) of
              None \<Rightarrow> AList.update (monitorKey rt (lm_name m))
                        (JSON_stringify_ids (allIdsOf (itemByIdOf perPage))) s
            | Some raw \<Rightarrow>
                (case JSON_parse rt raw of
                   None \<Rightarrow> s
                 | Some v \<Rightarrow>
                     (case new_Set v of
                        Inl e \<Rightarrow> s
                      | Inr prev \<Rightarrow> AList.update (monitorKey rt (lm_name m))
                          (JSON_stringify_ids (allIdsOf (itemByIdOf perPage))) s))))"
proof (cases "itemByIdOf perPage = []")
  case True
  then show ?thesis by (simp add: checkListItems_empty)
next
  case ne: False
  show ?thesis
  proof (cases "map_of s (monitorKey rt (lm_name m))")
    case None
    with ne show ?thesis by (simp add: checkListItems_first Let_def caught_def)
  next
    case (Some raw)
    show ?thesis
    proof (cases "JSON_parse rt raw")
      case None
      with ne Some checkListItems_unreadable [of perPage s rt m raw] show ?thesis
        by (simp add: died_def)
    next
      case v: (Some v)
      show ?thesis
      proof (cases "new_Set v")
        case (Inl e)
        with ne Some v checkListItems_unreadable [of perPage s rt m raw e] show ?thesis
          by (simp add: died_def)
      next
        case (Inr prev)
        with ne Some v show ?thesis
          by (simp add: checkListItems_prior [OF ne Some v Inr] Let_def caught_def)
      qed
    qed
  qed
qed

lemma checkListItems_known:
  assumes "readsBackIds rt"
    and "map_of s (monitorKey rt (lm_name m)) = Some (JSON_stringify_ids (allIdsOf (itemByIdOf perPage)))"
  shows "checkListItems rt m perPage s = (Some (plain (lm_name m) unchanged), s, [])"
proof (cases "itemByIdOf perPage = []")
  case True
  then show ?thesis by (rule checkListItems_empty)
next
  case ne: False
  let ?ids = "allIdsOf (itemByIdOf perPage)"
  have p: "JSON_parse rt (JSON_stringify_ids ?ids) = Some (JArray (map JString ?ids))"
    using assms(1) by (simp add: readsBackIds_def)
  have s: "new_Set (JArray (map JString ?ids)) = Inr (map JString ?ids)"
    by (simp add: new_Set_def)
  have n: "newItemsOf (map JString ?ids) (candidatesOf rt (maxPrice m) (itemByIdOf perPage)) = []"
    by (rule newItemsOf_known) (rule candidate_ids_subset)
  have u: "AList.update (monitorKey rt (lm_name m)) (JSON_stringify_ids ?ids) s = s"
    using assms(2) by (rule AList.update_triv)
  show ?thesis
    unfolding checkListItems_prior [OF ne assms(2) p s] by (simp add: n u)
qed

lemma checkListItems_new_items:
  assumes "map_option res_status (fst (checkListItems rt m perPage s)) = Some new_items"
  shows "\<exists>raw v prev. itemByIdOf perPage \<noteq> [] \<and> map_of s (monitorKey rt (lm_name m)) = Some raw
           \<and> JSON_parse rt raw = Some v \<and> new_Set v = Inr prev"
proof (cases "itemByIdOf perPage = []")
  case True
  with assms show ?thesis by (simp add: checkListItems_empty plain_def)
next
  case ne: False
  show ?thesis
  proof (cases "map_of s (monitorKey rt (lm_name m))")
    case None
    with ne assms show ?thesis
      by (simp add: checkListItems_first Let_def caught_def plain_def split: if_splits)
  next
    case (Some raw)
    show ?thesis
    proof (cases "JSON_parse rt raw")
      case None
      with ne Some assms checkListItems_unreadable [of perPage s rt m raw] show ?thesis
        by (simp add: died_def)
    next
      case v: (Some v)
      show ?thesis
      proof (cases "new_Set v")
        case (Inl e)
        with ne Some v assms checkListItems_unreadable [of perPage s rt m raw e] show ?thesis
          by (simp add: died_def)
      next
        case (Inr prev)
        with ne Some v show ?thesis by simp
      qed
    qed
  qed
qed

text \<open>An entry that \<open>JSON.parse\<close> cannot read: the run dies, with no result, and the state
  is not touched.\<close>

lemma unreadable_entry_example:
  "checkListMonitor (demoRuntime examplePages True) (demoMonitor [''p1'', ''p2''] None)
     [(''shop'', ''not json'')] = died [(''shop'', ''not json'')]"
  by code_simp

section \<open>The first run\<close>

subsection \<open>The first characters of the messages\<close>

lemma join_hd: "x \<noteq> [] \<Longrightarrow> hd (join sep (x # xs)) = hd x"
  by (cases xs) simp_all

lemma foldl_lines_start:
  "\<exists>rest. foldl (\<lambda>lines section. lines @ g section) (h # acc) ordered = h # rest"
  by (induction ordered arbitrary: acc) simp_all

lemma formatNewItems_hd: "hd (formatNewItems n items secs) = CHR 0x80"
proof -
  obtain r where h: "newItemsHeader n items = CHR 0x80 # r"
    by (simp add: newItemsHeader_def bolt_def Let_def)
  have plainCase: "hd (join [NL] ([newItemsHeader n items, []] @ map formatItemLine items)) = CHR 0x80"
    by (simp add: h)
  show ?thesis
  proof (cases secs)
    case None
    with plainCase show ?thesis by (simp add: formatNewItems_def Let_def)
  next
    case (Some ss)
    show ?thesis
    proof (cases "ss = []")
      case True
      with Some plainCase show ?thesis by (simp add: formatNewItems_def Let_def)
    next
      case False
      let ?g = "\<lambda>section. [[], ''<b>'' @ esc section @ ''</b>'']
                  @ map formatItemLine (the (Map_get (groupItems items ss) section))"
      let ?ordered = "filter (Map_has (groupItems items ss)) ss
                      @ (if Map_has (groupItems items ss) ''Others'' then [''Others''] else [])"
      obtain rest where "foldl (\<lambda>lines section. lines @ ?g section) [newItemsHeader n items] ?ordered
          = newItemsHeader n items # rest"
        using foldl_lines_start [of ?g "newItemsHeader n items" "[]" ?ordered] by blast
      moreover have "hd (join [NL] (newItemsHeader n items # rest)) = CHR 0x80"
        using join_hd [of "newItemsHeader n items" "[NL]" rest] by (simp add: h)
      ultimately show ?thesis using Some False by (simp add: formatNewItems_def Let_def)
    qed
  qed
qed

lemma nowMonitoringList_hd: "hd (nowMonitoringList rt m ids) = CHR 0x81"
  by (simp add: nowMonitoringList_def eyes_def)

lemma nowMonitoringFields_hd: "hd (nowMonitoringFields m cur) = CHR 0x81"
  by (simp add: nowMonitoringFields_def eyes_def)

lemma changeDetected_hd: "hd (changeDetected m cur) = CHR 0x80"
  by (simp add: changeDetected_def bolt_def)

lemma nowMonitoringList_not_new_items: "nowMonitoringList rt m ids \<noteq> formatNewItems n items secs"
proof
  assume "nowMonitoringList rt m ids = formatNewItems n items secs"
  then have "hd (nowMonitoringList rt m ids) = hd (formatNewItems n items secs)" by simp
  then show False by (simp add: nowMonitoringList_hd formatNewItems_hd)
qed

lemma nowMonitoringFields_not_new_items: "nowMonitoringFields m cur \<noteq> formatNewItems n items secs"
proof
  assume "nowMonitoringFields m cur = formatNewItems n items secs"
  then have "hd (nowMonitoringFields m cur) = hd (formatNewItems n items secs)" by simp
  then show False by (simp add: nowMonitoringFields_hd formatNewItems_hd)
qed

lemma nowMonitoringFields_not_change: "nowMonitoringFields m cur \<noteq> changeDetected m' cur'"
proof
  assume "nowMonitoringFields m cur = changeDetected m' cur'"
  then have "hd (nowMonitoringFields m cur) = hd (changeDetected m' cur')" by simp
  then show False by (simp add: nowMonitoringFields_hd changeDetected_hd)
qed

subsection \<open>The baseline\<close>

lemma first_run_list:
  assumes "fetchAndExtract rt lm = Inr perPage"
    and "itemByIdOf perPage \<noteq> []"
    and "map_of state (monitorKey rt (lm_name lm)) = None"
  shows "let allIds = allIdsOf (itemByIdOf perPage);
             msg = nowMonitoringList rt lm allIds;
             out = checkListMonitor rt lm state
         in fst (snd out) = AList.update (monitorKey rt (lm_name lm)) (JSON_stringify_ids allIds) state
          \<and> snd (snd out) = [msg]
          \<and> (\<forall>n items secs. msg \<noteq> formatNewItems n items secs)
          \<and> (telegramSend rt msg \<longrightarrow>
                fst out = Some ((plain (lm_name lm) initialized)\<lparr>res_count := Some (length allIds)\<rparr>))"
proof -
  have "checkListMonitor rt lm state = checkListItems rt lm perPage state"
    using assms(1) by (simp add: checkListMonitor_def)
  then show ?thesis
    unfolding checkListItems_first [OF assms(2,3)]
    by (simp add: Let_def caught_def nowMonitoringList_not_new_items)
qed

lemma first_run_fields:
  assumes "fetchPage rt (fm_url fm) = Inr html"
    and "extractFields rt html (selectors fm) = Inr current"
    and "map_of state (monitorKey rt (fm_name fm)) = None"
  shows "let msg = nowMonitoringFields fm current;
             out = checkFieldsMonitor rt fm state
         in fst (snd out) = AList.update (monitorKey rt (fm_name fm)) (hashData rt current) state
          \<and> snd (snd out) = [msg]
          \<and> (\<forall>n items secs. msg \<noteq> formatNewItems n items secs)
          \<and> (\<forall>fm' cur'. msg \<noteq> changeDetected fm' cur')
          \<and> (telegramSend rt msg \<longrightarrow> fst out = Some (plain (fm_name fm) initialized))"
  using assms
  by (simp add: checkFieldsMonitor_def checkFieldsSnapshot_def Let_def caught_def
      nowMonitoringFields_not_new_items nowMonitoringFields_not_change)

lemma example_fields:
  "fetchPage (demoRuntime examplePages d) (fm_url demoFieldsMonitor) = Inr ''p1''"
  "extractFields (demoRuntime examplePages d) ''p1'' (selectors demoFieldsMonitor)
     = Inr [(''title'', Some ''Batman 2'')]"
  by code_simp+

lemma example_ids:
  "allIdsOf (itemByIdOf
     [[exampleItem ''b'' ''Batman 2'' ''$5.00'', exampleItem ''a'' ''Avengers 1'' ''$75.00''],
      [exampleItem ''c'' ''Captain 3'' ''$1.00'']]) = [''a'', ''b'', ''c'']"
  by code_simp

text \<open>
  Claim C4, as amended. On the first run of a monitor (no state entry for its key), when
  the page was fetched and extracted and, for a list monitor, the merged map is not empty:
  the state entry becomes the full sorted id list (list monitor) or the content hash of the
  field snapshot (fields monitor); the one text handed to \<open>sendMessage\<close> is the
  "Now monitoring" message, which is neither a new-items nor a change notification; and when
  that message is delivered the result has status \<open>initialized\<close>, with the total count
  for a list monitor. (A list monitor whose merged map is empty is not initialized, as the
  last theorem of this section shows. When the message is not delivered the result is an
  error.)
\<close>

theorem first_run_baseline:
  "(fetchAndExtract rt lm = Inr perPage \<and> itemByIdOf perPage \<noteq> []
      \<and> map_of state (monitorKey rt (lm_name lm)) = None \<longrightarrow>
      (let allIds = allIdsOf (itemByIdOf perPage);
           msg = nowMonitoringList rt lm allIds;
           out = checkListMonitor rt lm state
       in fst (snd out) = AList.update (monitorKey rt (lm_name lm)) (JSON_stringify_ids allIds) state
        \<and> snd (snd out) = [msg]
        \<and> (\<forall>n items secs. msg \<noteq> formatNewItems n items secs)
        \<and> (telegramSend rt msg \<longrightarrow>
              fst out = Some ((plain (lm_name lm) initialized)\<lparr>res_count := Some (length allIds)\<rparr>))))
   \<and> (fetchPage rt (fm_url fm) = Inr html \<and> extractFields rt html (selectors fm) = Inr current
      \<and> map_of state2 (monitorKey rt (fm_name fm)) = None \<longrightarrow>
      (let msg = nowMonitoringFields fm current;
           out = checkFieldsMonitor rt fm state2
       in fst (snd out) = AList.update (monitorKey rt (fm_name fm)) (hashData rt current) state2
        \<and> snd (snd out) = [msg]
        \<and> (\<forall>n items secs. msg \<noteq> formatNewItems n items secs)
        \<and> (\<forall>fm' cur'. msg \<noteq> changeDetected fm' cur')
        \<and> (telegramSend rt msg \<longrightarrow> fst out = Some (plain (fm_name fm) initialized))))"
  using first_run_list [of rt lm perPage state] first_run_fields [of rt fm html current state2]
  by blast

theorem first_run_baseline_witness:
  "fetchAndExtract (demoRuntime examplePages True) (demoMonitor [''p1'', ''p2''] None)
     = Inr [[exampleItem ''b'' ''Batman 2'' ''$5.00'', exampleItem ''a'' ''Avengers 1'' ''$75.00''],
            [exampleItem ''c'' ''Captain 3'' ''$1.00'']]
   \<and> map_of ([] :: StateMap) (monitorKey (demoRuntime examplePages True) ''shop'') = None
   \<and> checkListMonitor (demoRuntime examplePages True) (demoMonitor [''p1'', ''p2''] None) []
       = (Some ((plain ''shop'' initialized)\<lparr>res_count := Some 3\<rparr>),
          [(''shop'', JSON_stringify_ids [''a'', ''b'', ''c''])],
          [nowMonitoringList (demoRuntime examplePages True) (demoMonitor [''p1'', ''p2''] None)
             [''a'', ''b'', ''c'']])
   \<and> fetchPage (demoRuntime examplePages True) (fm_url demoFieldsMonitor) = Inr ''p1''
   \<and> extractFields (demoRuntime examplePages True) ''p1'' (selectors demoFieldsMonitor)
       = Inr [(''title'', Some ''Batman 2'')]
   \<and> checkFieldsMonitor (demoRuntime examplePages True) demoFieldsMonitor []
       = (Some (plain ''page'' initialized),
          [(''page'', hashData (demoRuntime examplePages True) [(''title'', Some ''Batman 2'')])],
          [nowMonitoringFields demoFieldsMonitor [(''title'', Some ''Batman 2'')]])"
proof -
  let ?rt = "demoRuntime examplePages True"
  let ?m = "demoMonitor [''p1'', ''p2''] None"
  let ?pp = "[[exampleItem ''b'' ''Batman 2'' ''$5.00'', exampleItem ''a'' ''Avengers 1'' ''$75.00''],
              [exampleItem ''c'' ''Captain 3'' ''$1.00'']]"
  have f: "fetchAndExtract ?rt ?m = Inr ?pp" by (rule example_extract)
  have n: "itemByIdOf ?pp \<noteq> []" by (simp add: itemByIdOf_Nil_iff)
  have k: "map_of ([] :: StateMap) (monitorKey ?rt (lm_name ?m)) = None" by simp
  have k2: "map_of ([] :: StateMap) (monitorKey ?rt (fm_name demoFieldsMonitor)) = None" by simp
  have sent: "telegramSend ?rt msg" for msg by (simp add: demoRuntime_def)
  have nm: "lm_name ?m = ''shop''" "fm_name demoFieldsMonitor = ''page''"
    "monitorKey ?rt ''shop'' = ''shop''" "monitorKey ?rt ''page'' = ''page''"
    by (simp_all add: demoMonitor_def demoFieldsMonitor_def monitorKey_def demoRuntime_def)
  note b = first_run_baseline [of ?rt ?m ?pp "[]" demoFieldsMonitor "''p1''"
      "[(''title'', Some ''Batman 2'')]" "[]"]
  from b f n k have "checkListMonitor ?rt ?m []
       = (Some ((plain ''shop'' initialized)\<lparr>res_count := Some 3\<rparr>),
          [(''shop'', JSON_stringify_ids [''a'', ''b'', ''c''])],
          [nowMonitoringList ?rt ?m [''a'', ''b'', ''c'']])"
    by (simp add: Let_def prod_eq_iff example_ids sent nm)
  moreover from b example_fields [of True] k2 have "checkFieldsMonitor ?rt demoFieldsMonitor []
       = (Some (plain ''page'' initialized),
          [(''page'', hashData ?rt [(''title'', Some ''Batman 2'')])],
          [nowMonitoringFields demoFieldsMonitor [(''title'', Some ''Batman 2'')]])"
    by (simp add: Let_def prod_eq_iff sent nm)
  ultimately show ?thesis using f example_fields [of True] by simp
qed

text \<open>As the claim is written, every first run is initialized; a first run that extracts
  no item reports \<open>unchanged\<close> and writes nothing.\<close>

theorem first_run_with_empty_extraction:
  "map_of ([] :: StateMap) (monitorKey (demoRuntime [(''p1'', [])] True) ''shop'') = None
   \<and> checkListMonitor (demoRuntime [(''p1'', [])] True) (demoMonitor [''p1''] None) []
       = (Some (plain ''shop'' unchanged), [], [])"
  by code_simp

section \<open>Two runs in a row\<close>

lemma checkListItems_returns:
  "fst (checkListItems rt lm perPage state) \<noteq> None \<longleftrightarrow>
     itemByIdOf perPage = []
     \<or> (case map_of state (monitorKey rt (lm_name lm)) of
           None \<Rightarrow> True
         | Some raw \<Rightarrow> (\<exists>v prev. JSON_parse rt raw = Some v \<and> new_Set v = Inr prev))"
proof (cases "itemByIdOf perPage = []")
  case True
  then show ?thesis by (simp add: checkListItems_empty)
next
  case ne: False
  show ?thesis
  proof (cases "map_of state (monitorKey rt (lm_name lm))")
    case None
    with ne show ?thesis by (simp add: checkListItems_first Let_def caught_def)
  next
    case (Some raw)
    show ?thesis
    proof (cases "JSON_parse rt raw")
      case None
      with ne Some checkListItems_unreadable [of perPage state rt lm raw] show ?thesis
        by (simp add: died_def)
    next
      case v: (Some v)
      show ?thesis
      proof (cases "new_Set v")
        case (Inl e)
        with ne Some v checkListItems_unreadable [of perPage state rt lm raw e] show ?thesis
          by (simp add: died_def)
      next
        case (Inr prev)
        with ne Some v show ?thesis
          by (simp add: checkListItems_prior [OF ne Some v Inr] Let_def caught_def)
      qed
    qed
  qed
qed

lemma checkListItems_writes:
  assumes "itemByIdOf perPage \<noteq> []"
    and "fst (checkListItems rt lm perPage state) \<noteq> None"
  shows "fst (snd (checkListItems rt lm perPage state))
       = AList.update (monitorKey rt (lm_name lm))
           (JSON_stringify_ids (allIdsOf (itemByIdOf perPage))) state"
proof (cases "map_of state (monitorKey rt (lm_name lm))")
  case None
  with assms(1) show ?thesis by (simp add: checkListItems_state)
next
  case (Some raw)
  with assms(1) assms(2) [unfolded checkListItems_returns]
  obtain v prev where "JSON_parse rt raw = Some v" "new_Set v = Inr prev"
    by auto
  with assms(1) Some show ?thesis by (simp add: checkListItems_state)
qed

lemma written_entry_is_read:
  assumes "readsBackIds rt"
    and "writtenByListMonitor state (monitorKey rt (lm_name lm))"
  shows "fst (checkListItems rt lm perPage state) \<noteq> None"
proof (cases "map_of state (monitorKey rt (lm_name lm))")
  case None
  then show ?thesis unfolding checkListItems_returns by simp
next
  case (Some raw)
  with assms(2) obtain ids where raw: "raw = JSON_stringify_ids ids"
    by (auto simp: writtenByListMonitor_def)
  with assms(1) have "JSON_parse rt raw = Some (JArray (map JString ids))"
    by (simp add: readsBackIds_def)
  with Some show ?thesis unfolding checkListItems_returns by (simp add: new_Set_def)
qed

lemma second_run_list:
  assumes "fetchAndExtract rt lm = Inr perPage"
    and "fetchAndExtract rt2 lm = Inr perPage"
    and "sha256hex rt2 = sha256hex rt"
    and "readsBackIds rt2"
    and "fst (checkListMonitor rt lm state) \<noteq> None"
  shows "checkListMonitor rt2 lm (fst (snd (checkListMonitor rt lm state)))
       = (Some (plain (lm_name lm) unchanged), fst (snd (checkListMonitor rt lm state)), [])"
proof -
  let ?s1 = "fst (snd (checkListItems rt lm perPage state))"
  have key: "monitorKey rt2 (lm_name lm) = monitorKey rt (lm_name lm)"
    using assms(3) by (simp add: monitorKey_def)
  from assms(1,5) have ret: "fst (checkListItems rt lm perPage state) \<noteq> None"
    by (simp add: checkListMonitor_def)
  have "checkListItems rt2 lm perPage ?s1 = (Some (plain (lm_name lm) unchanged), ?s1, [])"
  proof (cases "itemByIdOf perPage = []")
    case True
    then show ?thesis by (rule checkListItems_empty)
  next
    case False
    then have "?s1 = AList.update (monitorKey rt (lm_name lm))
        (JSON_stringify_ids (allIdsOf (itemByIdOf perPage))) state"
      using ret by (rule checkListItems_writes)
    then have "map_of ?s1 (monitorKey rt2 (lm_name lm))
        = Some (JSON_stringify_ids (allIdsOf (itemByIdOf perPage)))"
      by (simp add: key AList.update_conv')
    with assms(4) show ?thesis by (rule checkListItems_known)
  qed
  with assms(1,2) show ?thesis by (simp add: checkListMonitor_def)
qed

lemma first_run_returns:
  assumes "fetchAndExtract rt lm = Inr perPage"
    and "readsBackIds rt"
    and "writtenByListMonitor state (monitorKey rt (lm_name lm))"
  shows "fst (checkListMonitor rt lm state) \<noteq> None"
  using assms(1) written_entry_is_read [OF assms(2,3), of perPage]
  by (simp add: checkListMonitor_def)

lemma checkFieldsSnapshot_known:
  assumes "map_of s (monitorKey rt (fm_name fm)) = Some (hashData rt current)"
  shows "checkFieldsSnapshot rt fm current s = (Some (plain (fm_name fm) unchanged), s, [])"
  using assms by (simp add: checkFieldsSnapshot_def)

lemma second_run_fields:
  assumes "fetchPage rt (fm_url fm) = Inr html"
    and "extractFields rt html (selectors fm) = Inr current"
    and "fetchPage rt2 (fm_url fm) = Inr html2"
    and "extractFields rt2 html2 (selectors fm) = Inr current"
    and "sha256hex rt2 = sha256hex rt"
  shows "checkFieldsMonitor rt2 fm (fst (snd (checkFieldsMonitor rt fm state)))
       = (Some (plain (fm_name fm) unchanged), fst (snd (checkFieldsMonitor rt fm state)), [])"
proof -
  have h: "hashData rt2 current = hashData rt current"
    "monitorKey rt2 (fm_name fm) = monitorKey rt (fm_name fm)"
    using assms(5) by (simp_all add: hashData_def monitorKey_def)
  have "map_of (fst (snd (checkFieldsSnapshot rt fm current state))) (monitorKey rt (fm_name fm))
      = Some (hashData rt current)"
    by (cases "map_of state (monitorKey rt (fm_name fm))")
       (simp_all add: checkFieldsSnapshot_def Let_def caught_def AList.update_conv')
  then have "map_of (fst (snd (checkFieldsSnapshot rt fm current state))) (monitorKey rt2 (fm_name fm))
      = Some (hashData rt2 current)"
    by (simp only: h)
  then have "checkFieldsSnapshot rt2 fm current (fst (snd (checkFieldsSnapshot rt fm current state)))
      = (Some (plain (fm_name fm) unchanged), fst (snd (checkFieldsSnapshot rt fm current state)), [])"
    by (rule checkFieldsSnapshot_known)
  with assms(1-4) show ?thesis by (simp add: checkFieldsMonitor_def)
qed

lemma example_first_run_state:
  "fst (snd (checkListMonitor (demoRuntime examplePages True) (demoMonitor [''p1'', ''p2''] None)
       [(''shop'', JSON_stringify_ids [''a'', ''b''])]))
   = [(''shop'', JSON_stringify_ids [''a'', ''b'', ''c''])]"
  by code_simp

text \<open>
  Claim C2. Two runs of the same monitor in a row, with identical extraction results: the
  second run reports \<open>unchanged\<close>, sends nothing, and returns the state map exactly as
  the first run left it (the state file is written from that map, so it is the same text),
  for a list monitor and for a fields monitor. The two runs may meet different runtimes
  (the delivery of a message may succeed in one and fail in the other) as long as the
  extraction results and the digest are the same. For a list monitor the runtime's
  \<open>JSON.parse\<close> is taken to read back what \<open>JSON.stringify\<close> wrote, and the entry the
  first run finds, if any, to be the array an earlier run wrote, as the data model says.
  More generally it is enough that the first run returns a result, whatever entry it
  finds, and that the second run reads back what the first one wrote. (At an entry that
  cannot be read the run dies, lemma \<open>checkListItems_unreadable\<close>.)
\<close>

theorem second_run_is_unchanged:
  "(fetchAndExtract rt lm = Inr perPage \<and> fetchAndExtract rt2 lm = Inr perPage
      \<and> sha256hex rt2 = sha256hex rt \<and> readsBackIds rt \<and> readsBackIds rt2
      \<and> writtenByListMonitor state (monitorKey rt (lm_name lm)) \<longrightarrow>
      (let s1 = fst (snd (checkListMonitor rt lm state))
       in checkListMonitor rt2 lm s1 = (Some (plain (lm_name lm) unchanged), s1, [])))
   \<and> (fetchAndExtract rt lm = Inr perPage \<and> fetchAndExtract rt2 lm = Inr perPage
      \<and> sha256hex rt2 = sha256hex rt \<and> readsBackIds rt2
      \<and> fst (checkListMonitor rt lm state) \<noteq> None \<longrightarrow>
      (let s1 = fst (snd (checkListMonitor rt lm state))
       in checkListMonitor rt2 lm s1 = (Some (plain (lm_name lm) unchanged), s1, [])))
   \<and> (fetchPage rt (fm_url fm) = Inr html \<and> extractFields rt html (selectors fm) = Inr current
      \<and> fetchPage rt2 (fm_url fm) = Inr html2 \<and> extractFields rt2 html2 (selectors fm) = Inr current
      \<and> sha256hex rt2 = sha256hex rt \<longrightarrow>
      (let s1 = fst (snd (checkFieldsMonitor rt fm state2))
       in checkFieldsMonitor rt2 fm s1 = (Some (plain (fm_name fm) unchanged), s1, [])))"
  using second_run_list [of rt lm perPage rt2 state]
    first_run_returns [of rt lm perPage state]
    second_run_fields [of rt fm html current rt2 html2 state2]
  by (simp add: Let_def)

theorem second_run_is_unchanged_witness:
  "fetchAndExtract (demoRuntime examplePages True) (demoMonitor [''p1'', ''p2''] None)
     = Inr [[exampleItem ''b'' ''Batman 2'' ''$5.00'', exampleItem ''a'' ''Avengers 1'' ''$75.00''],
            [exampleItem ''c'' ''Captain 3'' ''$1.00'']]
   \<and> readsBackIds (demoRuntime examplePages True)
   \<and> readsBackIds (demoRuntime examplePages False)
   \<and> writtenByListMonitor [(''shop'', JSON_stringify_ids [''a'', ''b''])]
        (monitorKey (demoRuntime examplePages True) ''shop'')
   \<and> map_option res_status (fst (checkListMonitor (demoRuntime examplePages True) (demoMonitor [''p1'', ''p2''] None)
        [(''shop'', JSON_stringify_ids [''a'', ''b''])])) = Some new_items
   \<and> checkListMonitor (demoRuntime examplePages False) (demoMonitor [''p1'', ''p2''] None)
        [(''shop'', JSON_stringify_ids [''a'', ''b'', ''c''])]
       = (Some (plain ''shop'' unchanged), [(''shop'', JSON_stringify_ids [''a'', ''b'', ''c''])], [])
   \<and> fst (snd (checkFieldsMonitor (demoRuntime examplePages True) demoFieldsMonitor []))
       = [(''page'', hashData (demoRuntime examplePages True) [(''title'', Some ''Batman 2'')])]
   \<and> checkFieldsMonitor (demoRuntime examplePages False) demoFieldsMonitor
        [(''page'', hashData (demoRuntime examplePages True) [(''title'', Some ''Batman 2'')])]
       = (Some (plain ''page'' unchanged),
          [(''page'', hashData (demoRuntime examplePages True) [(''title'', Some ''Batman 2'')])], [])"
proof -
  let ?rt = "demoRuntime examplePages True"
  let ?rt2 = "demoRuntime examplePages False"
  let ?m = "demoMonitor [''p1'', ''p2''] None"
  let ?pp = "[[exampleItem ''b'' ''Batman 2'' ''$5.00'', exampleItem ''a'' ''Avengers 1'' ''$75.00''],
              [exampleItem ''c'' ''Captain 3'' ''$1.00'']]"
  let ?s = "[(''shop'', JSON_stringify_ids [''a'', ''b''])]"
  have f: "fetchAndExtract ?rt ?m = Inr ?pp" "fetchAndExtract ?rt2 ?m = Inr ?pp"
    by (rule example_extract)+
  have h: "sha256hex ?rt2 = sha256hex ?rt" by (simp add: demoRuntime_def)
  have r: "readsBackIds ?rt" "readsBackIds ?rt2" by (rule demoRuntime_readsBackIds)+
  have w: "writtenByListMonitor ?s (monitorKey ?rt (lm_name ?m))"
    by (auto simp: writtenByListMonitor_def monitorKey_def demoRuntime_def demoMonitor_def)
  have nm: "lm_name ?m = ''shop''" "fm_name demoFieldsMonitor = ''page''"
    by (simp_all add: demoMonitor_def demoFieldsMonitor_def)
  have st: "map_option res_status (fst (checkListMonitor ?rt ?m ?s)) = Some new_items"
    by code_simp
  have fs: "fst (snd (checkFieldsMonitor ?rt demoFieldsMonitor []))
       = [(''page'', hashData ?rt [(''title'', Some ''Batman 2'')])]"
    by code_simp
  note t = second_run_is_unchanged [of ?rt ?m ?pp ?rt2 ?s demoFieldsMonitor "''p1''"
      "[(''title'', Some ''Batman 2'')]" "''p1''" "[]"]
  from t f h r w have "checkListMonitor ?rt2 ?m [(''shop'', JSON_stringify_ids [''a'', ''b'', ''c''])]
       = (Some (plain ''shop'' unchanged), [(''shop'', JSON_stringify_ids [''a'', ''b'', ''c''])], [])"
    by (simp add: Let_def example_first_run_state nm)
  moreover from t example_fields [of True] example_fields [of False] h
  have "checkFieldsMonitor ?rt2 demoFieldsMonitor
        [(''page'', hashData ?rt [(''title'', Some ''Batman 2'')])]
       = (Some (plain ''page'' unchanged), [(''page'', hashData ?rt [(''title'', Some ''Batman 2'')])], [])"
    by (simp add: Let_def fs nm)
  ultimately show ?thesis using f r w st fs nm by simp
qed

section \<open>The price filter\<close>

lemma fetchAndExtract_maxPrice: "fetchAndExtract rt (lm\<lparr>maxPrice := q\<rparr>) = fetchAndExtract rt lm"
  by (simp add: fetchAndExtract_def extractOptsOf_def cong: sum.case_cong)

lemma checkListItems_state_maxPrice:
  "fst (snd (checkListItems rt (lm\<lparr>maxPrice := q\<rparr>) perPage state))
     = fst (snd (checkListItems rt lm perPage state))"
  by (simp add: checkListItems_state cong: option.case_cong sum.case_cong)

lemma checkListItems_state_cases:
  "fst (snd (checkListItems rt lm perPage state)) = state
   \<or> fst (snd (checkListItems rt lm perPage state))
       = AList.update (monitorKey rt (lm_name lm)) (JSON_stringify_ids (allIdsOf (itemByIdOf perPage))) state"
  by (simp add: checkListItems_state split: option.split sum.split)

lemma checkListItems_after:
  assumes "sha256hex rt2 = sha256hex rt"
    and "JSON_parse rt2 = JSON_parse rt"
    and "readsBackIds rt"
    and "lm_name lm2 = lm_name lm"
  shows "map_option res_status (fst (checkListItems rt2 lm2 perPage (fst (snd (checkListItems rt lm perPage state)))))
       \<noteq> Some new_items"
proof -
  let ?key = "monitorKey rt (lm_name lm)"
  let ?upd = "AList.update ?key (JSON_stringify_ids (allIdsOf (itemByIdOf perPage))) state"
  have key: "monitorKey rt2 (lm_name lm2) = ?key"
    using assms(1,4) by (simp add: monitorKey_def)
  have r2: "readsBackIds rt2" using assms(2,3) by (simp add: readsBackIds_def)
  have written: "map_option res_status (fst (checkListItems rt2 lm2 perPage ?upd)) \<noteq> Some new_items"
  proof -
    have "map_of ?upd (monitorKey rt2 (lm_name lm2))
        = Some (JSON_stringify_ids (allIdsOf (itemByIdOf perPage)))"
      by (simp add: key AList.update_conv')
    with r2 have "checkListItems rt2 lm2 perPage ?upd = (Some (plain (lm_name lm2) unchanged), ?upd, [])"
      by (rule checkListItems_known)
    then show ?thesis by (simp add: plain_def)
  qed
  show ?thesis
  proof (cases "itemByIdOf perPage = []")
    case True
    then show ?thesis by (simp add: checkListItems_empty plain_def)
  next
    case ne: False
    show ?thesis
    proof (cases "map_of state ?key")
      case None
      with ne written show ?thesis by (simp add: checkListItems_state)
    next
      case (Some raw)
      show ?thesis
      proof (cases "JSON_parse rt raw")
        case None
        then have "JSON_parse rt2 raw = None" using assms(2) by simp
        with ne Some key checkListItems_unreadable [of perPage state rt2 lm2 raw]
        have "checkListItems rt2 lm2 perPage state = died state" by simp
        with ne Some None show ?thesis by (simp add: checkListItems_state died_def)
      next
        case v: (Some v)
        show ?thesis
        proof (cases "new_Set v")
          case (Inl e)
          from v have "JSON_parse rt2 raw = Some v" using assms(2) by simp
          with ne Some key Inl checkListItems_unreadable [of perPage state rt2 lm2 raw e]
          have "checkListItems rt2 lm2 perPage state = died state" by simp
          with ne Some v Inl show ?thesis by (simp add: checkListItems_state died_def)
        next
          case (Inr prev)
          with ne Some v written show ?thesis by (simp add: checkListItems_state)
        qed
      qed
    qed
  qed
qed

lemma example_extract_limit:
  "fetchAndExtract (demoRuntime examplePages d) ((demoMonitor [''p1'', ''p2''] limit)\<lparr>maxPrice := p\<rparr>)
     = Inr [[exampleItem ''b'' ''Batman 2'' ''$5.00'', exampleItem ''a'' ''Avengers 1'' ''$75.00''],
            [exampleItem ''c'' ''Captain 3'' ''$1.00'']]"
  by (simp add: fetchAndExtract_maxPrice example_extract)

text \<open>
  Claim C3. The id list a list monitor persists does not depend on \<open>maxPrice\<close>: it is the
  sorted list, without repetition, of the ids of all extracted items (not of the
  candidates), the state after a check is either the state before it or that state with
  this list written at the monitor's key, and checking with any other \<open>maxPrice\<close> leaves
  the same state. So a second run over the same extraction results, in which only
  \<open>maxPrice\<close> differs, never reports \<open>new_items\<close>. (The runtime's \<open>JSON.parse\<close> is
  taken to read back what \<open>JSON.stringify\<close> wrote. In the example the item a costs
  75 dollars: it is no candidate under the limit of 50, its id is persisted all the same,
  and raising the limit to 100 in the next run does not report it.)
\<close>

theorem price_filter_never_affects_state:
  assumes "fetchAndExtract rt lm = Inr perPage"
    and "fetchAndExtract rt2 (lm\<lparr>maxPrice := p\<rparr>) = Inr perPage"
    and "sha256hex rt2 = sha256hex rt"
    and "JSON_parse rt2 = JSON_parse rt"
    and "readsBackIds rt"
  shows "let ids = allIdsOf (itemByIdOf perPage);
             s1 = fst (snd (checkListMonitor rt lm state))
         in sorted ids \<and> distinct ids \<and> set ids = item_id ` set (concat perPage)
          \<and> (s1 = state \<or> s1 = AList.update (monitorKey rt (lm_name lm)) (JSON_stringify_ids ids) state)
          \<and> fst (snd (checkListMonitor rt (lm\<lparr>maxPrice := q\<rparr>) state)) = s1
          \<and> map_option res_status (fst (checkListMonitor rt2 (lm\<lparr>maxPrice := p\<rparr>) s1)) \<noteq> Some new_items"
proof -
  have c1: "checkListMonitor rt lm state = checkListItems rt lm perPage state"
    using assms(1) by (simp add: checkListMonitor_def)
  have c2: "checkListMonitor rt (lm\<lparr>maxPrice := q\<rparr>) state
      = checkListItems rt (lm\<lparr>maxPrice := q\<rparr>) perPage state"
    using assms(1) by (simp add: checkListMonitor_def fetchAndExtract_maxPrice)
  have c3: "checkListMonitor rt2 (lm\<lparr>maxPrice := p\<rparr>) s = checkListItems rt2 (lm\<lparr>maxPrice := p\<rparr>) perPage s" for s
    using assms(2) by (simp add: checkListMonitor_def)
  have "map_option res_status (fst (checkListItems rt2 (lm\<lparr>maxPrice := p\<rparr>) perPage
          (fst (snd (checkListItems rt lm perPage state))))) \<noteq> Some new_items"
    using assms(3-5) by (rule checkListItems_after) simp
  then show ?thesis
    unfolding Let_def c1 c2 c3
    using checkListItems_state_cases [of rt lm perPage state]
    by (simp add: allIdsOf_sorted allIdsOf_distinct allIdsOf_set checkListItems_state_maxPrice)
qed

theorem price_filter_never_affects_state_witness:
  "fetchAndExtract (demoRuntime examplePages True) (demoMonitor [''p1'', ''p2''] (Some 50))
     = Inr [[exampleItem ''b'' ''Batman 2'' ''$5.00'', exampleItem ''a'' ''Avengers 1'' ''$75.00''],
            [exampleItem ''c'' ''Captain 3'' ''$1.00'']]
   \<and> readsBackIds (demoRuntime examplePages True)
   \<and> candidatesOf (demoRuntime examplePages True) (Some 50) (itemByIdOf
        [[exampleItem ''b'' ''Batman 2'' ''$5.00'', exampleItem ''a'' ''Avengers 1'' ''$75.00''],
         [exampleItem ''c'' ''Captain 3'' ''$1.00'']])
      = [exampleItem ''b'' ''Batman 2'' ''$5.00'', exampleItem ''c'' ''Captain 3'' ''$1.00'']
   \<and> fst (snd (checkListMonitor (demoRuntime examplePages True) (demoMonitor [''p1'', ''p2''] (Some 50))
        [(''shop'', JSON_stringify_ids [''b''])]))
      = [(''shop'', JSON_stringify_ids [''a'', ''b'', ''c''])]
   \<and> fst (snd (checkListMonitor (demoRuntime examplePages True)
        ((demoMonitor [''p1'', ''p2''] (Some 50))\<lparr>maxPrice := None\<rparr>)
        [(''shop'', JSON_stringify_ids [''b''])]))
      = [(''shop'', JSON_stringify_ids [''a'', ''b'', ''c''])]
   \<and> map_option res_status (fst (checkListMonitor (demoRuntime examplePages True)
        ((demoMonitor [''p1'', ''p2''] (Some 50))\<lparr>maxPrice := Some 100\<rparr>)
        [(''shop'', JSON_stringify_ids [''a'', ''b'', ''c''])])) \<noteq> Some new_items"
proof -
  let ?rt = "demoRuntime examplePages True"
  let ?m = "demoMonitor [''p1'', ''p2''] (Some 50)"
  let ?pp = "[[exampleItem ''b'' ''Batman 2'' ''$5.00'', exampleItem ''a'' ''Avengers 1'' ''$75.00''],
              [exampleItem ''c'' ''Captain 3'' ''$1.00'']]"
  let ?s = "[(''shop'', JSON_stringify_ids [''b''])]"
  have f: "fetchAndExtract ?rt ?m = Inr ?pp" by (rule example_extract)
  have f2: "fetchAndExtract ?rt (?m\<lparr>maxPrice := Some 100\<rparr>) = Inr ?pp" by (rule example_extract_limit)
  have r: "readsBackIds ?rt" by (rule demoRuntime_readsBackIds)
  have c: "candidatesOf ?rt (Some 50) (itemByIdOf ?pp)
      = [exampleItem ''b'' ''Batman 2'' ''$5.00'', exampleItem ''c'' ''Captain 3'' ''$1.00'']"
    by code_simp
  have s1: "fst (snd (checkListMonitor ?rt ?m ?s)) = [(''shop'', JSON_stringify_ids [''a'', ''b'', ''c''])]"
    by code_simp
  from price_filter_never_affects_state [OF f f2 refl refl r, of ?s None] s1 f r c
  show ?thesis by (simp add: Let_def)
qed

section \<open>No item is reported twice in a row\<close>

text \<open>
  Claim C10. Whenever a list check returns status \<open>new_items\<close>, the result carries a
  non-empty list of new items, the state entry of the monitor after the run is the JSON
  array of the full sorted id list, and the id of every reported item is in that list. So
  the run that follows over the same extraction results reports \<open>unchanged\<close>: no item is
  reported as new twice in a row. (The runtime's \<open>JSON.parse\<close> is taken to read back what
  \<open>JSON.stringify\<close> wrote.)
\<close>

theorem reported_items_are_persisted:
  assumes "fetchAndExtract rt lm = Inr perPage"
    and "map_option res_status (fst (checkListMonitor rt lm state)) = Some new_items"
    and "fetchAndExtract rt2 lm = Inr perPage"
    and "sha256hex rt2 = sha256hex rt"
    and "readsBackIds rt2"
  shows "\<exists>new. map_option res_newItems (fst (checkListMonitor rt lm state)) = Some (Some new) \<and> new \<noteq> []
           \<and> map_of (fst (snd (checkListMonitor rt lm state))) (monitorKey rt (lm_name lm))
               = Some (JSON_stringify_ids (allIdsOf (itemByIdOf perPage)))
           \<and> (\<forall>i \<in> set new. item_id i \<in> set (allIdsOf (itemByIdOf perPage)))
           \<and> checkListMonitor rt2 lm (fst (snd (checkListMonitor rt lm state)))
               = (Some (plain (lm_name lm) unchanged), fst (snd (checkListMonitor rt lm state)), [])"
proof -
  let ?key = "monitorKey rt (lm_name lm)"
  let ?ids = "allIdsOf (itemByIdOf perPage)"
  let ?cs = "candidatesOf rt (maxPrice lm) (itemByIdOf perPage)"
  have c1: "checkListMonitor rt lm state = checkListItems rt lm perPage state"
    using assms(1) by (simp add: checkListMonitor_def)
  have c2: "checkListMonitor rt2 lm s = checkListItems rt2 lm perPage s" for s
    using assms(3) by (simp add: checkListMonitor_def)
  from assms(2) c1 have st: "map_option res_status (fst (checkListItems rt lm perPage state)) = Some new_items"
    by simp
  then obtain raw v prev where ne: "itemByIdOf perPage \<noteq> []"
    and raw: "map_of state ?key = Some raw"
    and v: "JSON_parse rt raw = Some v" and prev: "new_Set v = Inr prev"
    using checkListItems_new_items [of rt lm perPage state] by blast
  let ?new = "newItemsOf prev ?cs"
  let ?s1 = "AList.update ?key (JSON_stringify_ids ?ids) state"
  note closed = checkListItems_prior [OF ne raw v prev]
  from st have new: "?new \<noteq> []"
    unfolding closed by (auto simp: Let_def plain_def)
  from st new have out: "fst (checkListItems rt lm perPage state)
        = Some ((plain (lm_name lm) new_items)\<lparr>res_newItems := Some ?new\<rparr>)"
    "fst (snd (checkListItems rt lm perPage state)) = ?s1"
    unfolding closed by (auto simp: Let_def plain_def caught_def split: if_splits)
  have inIds: "\<forall>i \<in> set ?new. item_id i \<in> set ?ids"
    using newItemsOf_subset [of prev ?cs] candidate_ids_subset [of rt "maxPrice lm" perPage] by auto
  have entry: "map_of ?s1 ?key = Some (JSON_stringify_ids ?ids)"
    by (simp add: AList.update_conv')
  have "monitorKey rt2 (lm_name lm) = ?key" using assms(4) by (simp add: monitorKey_def)
  with entry have "map_of ?s1 (monitorKey rt2 (lm_name lm)) = Some (JSON_stringify_ids ?ids)"
    by simp
  with assms(5) have "checkListItems rt2 lm perPage ?s1 = (Some (plain (lm_name lm) unchanged), ?s1, [])"
    by (rule checkListItems_known)
  with new out inIds entry show ?thesis
    unfolding c1 c2 by simp
qed

theorem reported_items_are_persisted_witness:
  "fetchAndExtract (demoRuntime examplePages True) (demoMonitor [''p1'', ''p2''] (Some 50))
     = Inr [[exampleItem ''b'' ''Batman 2'' ''$5.00'', exampleItem ''a'' ''Avengers 1'' ''$75.00''],
            [exampleItem ''c'' ''Captain 3'' ''$1.00'']]
   \<and> map_option res_status (fst (checkListMonitor (demoRuntime examplePages True)
        (demoMonitor [''p1'', ''p2''] (Some 50)) [(''shop'', JSON_stringify_ids [''b''])])) = Some new_items
   \<and> map_option res_newItems (fst (checkListMonitor (demoRuntime examplePages True)
        (demoMonitor [''p1'', ''p2''] (Some 50)) [(''shop'', JSON_stringify_ids [''b''])]))
      = Some (Some [exampleItem ''c'' ''Captain 3'' ''$1.00''])
   \<and> readsBackIds (demoRuntime examplePages True)
   \<and> checkListMonitor (demoRuntime examplePages True) (demoMonitor [''p1'', ''p2''] (Some 50))
        [(''shop'', JSON_stringify_ids [''a'', ''b'', ''c''])]
      = (Some (plain ''shop'' unchanged), [(''shop'', JSON_stringify_ids [''a'', ''b'', ''c''])], [])"
proof -
  let ?rt = "demoRuntime examplePages True"
  let ?m = "demoMonitor [''p1'', ''p2''] (Some 50)"
  let ?s = "[(''shop'', JSON_stringify_ids [''b''])]"
  have f: "fetchAndExtract ?rt ?m
     = Inr [[exampleItem ''b'' ''Batman 2'' ''$5.00'', exampleItem ''a'' ''Avengers 1'' ''$75.00''],
            [exampleItem ''c'' ''Captain 3'' ''$1.00'']]"
    by (rule example_extract)
  have st: "map_option res_status (fst (checkListMonitor ?rt ?m ?s)) = Some new_items" by code_simp
  have nw: "map_option res_newItems (fst (checkListMonitor ?rt ?m ?s)) = Some (Some [exampleItem ''c'' ''Captain 3'' ''$1.00''])"
    by code_simp
  have s1: "fst (snd (checkListMonitor ?rt ?m ?s)) = [(''shop'', JSON_stringify_ids [''a'', ''b'', ''c''])]"
    by code_simp
  have r: "readsBackIds ?rt" by (rule demoRuntime_readsBackIds)
  have nm: "lm_name ?m = ''shop''" by (simp add: demoMonitor_def)
  from reported_items_are_persisted [OF f st f refl r] f st nw r show ?thesis
    by (simp add: s1 nm)
qed

section \<open>Items without an id\<close>

subsection \<open>The extraction of a list of items\<close>

lemma truthy_Some: "truthy v \<Longrightarrow> \<exists>s. v = Some s \<and> s \<noteq> []"
  by (cases v) (simp_all add: truthy_def)

lemma extractElement_closed:
  assumes "elementFields rt fs opts el = Inr flds"
  shows "extractElement rt fs opts el =
     (if truthy (resolveId rt (idAttribute opts) el flds)
      then Inr (Some \<lparr>item_id = the (resolveId rt (idAttribute opts) el flds),
                      item_url = resolveUrl (urlTemplate opts) (resolveId rt (idAttribute opts) el flds) flds,
                      item_fields = flds\<rparr>)
      else Inr None)"
  using assms by (simp add: extractElement_def Let_def)

lemma extractElement_Inr:
  assumes "extractElement rt fs opts el = Inr r"
  shows "\<exists>flds. elementFields rt fs opts el = Inr flds"
  using assms by (cases "elementFields rt fs opts el") (simp_all add: extractElement_def)

lemma extractElement_Some:
  assumes "extractElement rt fs opts el = Inr (Some item)"
  shows "item_id item \<noteq> []
       \<and> resolveId rt (idAttribute opts) el (item_fields item) = Some (item_id item)
       \<and> elementFields rt fs opts el = Inr (item_fields item)"
proof -
  from extractElement_Inr [OF assms] obtain flds where f: "elementFields rt fs opts el = Inr flds"
    by (rule exE)
  from assms have t: "truthy (resolveId rt (idAttribute opts) el flds)"
    unfolding extractElement_closed [OF f] by (simp split: if_splits)
  then obtain s where s: "resolveId rt (idAttribute opts) el flds = Some s" "s \<noteq> []"
    using truthy_Some by blast
  from assms t have "item = \<lparr>item_id = the (resolveId rt (idAttribute opts) el flds),
      item_url = resolveUrl (urlTemplate opts) (resolveId rt (idAttribute opts) el flds) flds,
      item_fields = flds\<rparr>"
    unfolding extractElement_closed [OF f] by simp
  with s f show ?thesis by simp
qed

lemma resolveId_routes:
  assumes "resolveId rt idAttr el flds = Some i"
  shows "(truthy idAttr \<and> cheerioAttr rt el (the idAttr) = Some i)
       \<or> (\<not> truthy idAttr \<and> (\<exists>u. getField flds ''url'' = Some u \<and> productsMatch u = Some i))"
  using assms by (auto simp: resolveId_def split: if_splits option.splits)

lemma eachElement_closed:
  assumes "eachElement rt fs opts els acc = Inr items"
  shows "items = acc @ concat (map (\<lambda>el. case extractElement rt fs opts el of
                                          Inr (Some item) \<Rightarrow> [item] | _ \<Rightarrow> []) els)
       \<and> (\<forall>el \<in> set els. \<exists>r. extractElement rt fs opts el = Inr r)"
  using assms
proof (induction els arbitrary: acc)
  case Nil
  then show ?case by simp
next
  case (Cons el els)
  show ?case
  proof (cases "extractElement rt fs opts el")
    case (Inl e)
    with Cons.prems show ?thesis by simp
  next
    case (Inr r)
    show ?thesis
    proof (cases r)
      case None
      with Inr Cons.prems have "eachElement rt fs opts els acc = Inr items" by simp
      from Cons.IH [OF this] Inr None show ?thesis by simp
    next
      case (Some item)
      with Inr Cons.prems have "eachElement rt fs opts els (acc @ [item]) = Inr items" by simp
      from Cons.IH [OF this] Inr Some show ?thesis by simp
    qed
  qed
qed

lemma extractItemList_closed:
  assumes "extractItemList rt html itemSel fs opts = Inr items"
  shows "\<exists>els. cheerioSelect rt html itemSel = Some els
          \<and> items = concat (map (\<lambda>el. case extractElement rt fs opts el of
                                          Inr (Some item) \<Rightarrow> [item] | _ \<Rightarrow> []) els)
          \<and> (\<forall>el \<in> set els. \<exists>flds. elementFields rt fs opts el = Inr flds
                \<and> extractElement rt fs opts el =
                    (if truthy (resolveId rt (idAttribute opts) el flds)
                     then Inr (Some \<lparr>item_id = the (resolveId rt (idAttribute opts) el flds),
                            item_url = resolveUrl (urlTemplate opts)
                                         (resolveId rt (idAttribute opts) el flds) flds,
                            item_fields = flds\<rparr>)
                     else Inr None))
          \<and> (\<forall>item \<in> set items. item_id item \<noteq> []
                \<and> (\<exists>el \<in> set els. resolveId rt (idAttribute opts) el (item_fields item)
                                     = Some (item_id item)))"
proof -
  from assms obtain els where els: "cheerioSelect rt html itemSel = Some els"
    and each: "eachElement rt fs opts els [] = Inr items"
    by (cases "cheerioSelect rt html itemSel") (simp_all add: extractItemList_def)
  note c = eachElement_closed [OF each]
  have fields: "\<exists>flds. elementFields rt fs opts el = Inr flds
                \<and> extractElement rt fs opts el =
                    (if truthy (resolveId rt (idAttribute opts) el flds)
                     then Inr (Some \<lparr>item_id = the (resolveId rt (idAttribute opts) el flds),
                            item_url = resolveUrl (urlTemplate opts)
                                         (resolveId rt (idAttribute opts) el flds) flds,
                            item_fields = flds\<rparr>)
                     else Inr None)" if "el \<in> set els" for el
  proof -
    from c that obtain r where r: "extractElement rt fs opts el = Inr r" by blast
    from extractElement_Inr [OF r] obtain flds where f: "elementFields rt fs opts el = Inr flds"
      by (rule exE)
    with extractElement_closed [OF f] show ?thesis by blast
  qed
  have ids: "item_id item \<noteq> [] \<and> (\<exists>el \<in> set els.
      resolveId rt (idAttribute opts) el (item_fields item) = Some (item_id item))"
    if "item \<in> set items" for item
  proof -
    from that c obtain el where el: "el \<in> set els"
      and "item \<in> set (case extractElement rt fs opts el of Inr (Some item) \<Rightarrow> [item] | _ \<Rightarrow> [])"
      by auto
    then have "extractElement rt fs opts el = Inr (Some item)"
      by (auto split: sum.splits option.splits)
    from extractElement_Some [OF this] el show ?thesis by blast
  qed
  from els c fields ids show ?thesis by blast
qed

text \<open>A transform of a field: the prefix is taken from the value; and a transform that is
  keyed by a member of \<open>Object.prototype\<close>, where no field of that name was extracted,
  ends the extraction.\<close>

lemma applyTransform_examples:
  "applyTransform [(''title'', Some ''watch Batman 2'')] (''title'', ''stripPrefix:watch '')
     = Inr [(''title'', Some ''Batman 2'')]"
  "applyTransform [(''title'', Some ''watch Batman 2'')] (''constructor'', ''stripPrefix:watch '')
     = Inl ParseError"
  "applyTransform [(''title'', Some ''watch Batman 2'')] (''price'', ''stripPrefix:watch '')
     = Inr [(''title'', Some ''watch Batman 2'')]"
  by code_simp+

subsection \<open>Where the items of a check come from\<close>

lemma Effect_all_Inr: "Effect_all xs = Inr vs \<Longrightarrow> xs = map Inr vs"
proof (induction xs arbitrary: vs)
  case Nil
  then show ?case by simp
next
  case (Cons x xs)
  then show ?case by (auto split: sum.splits)
qed

lemma fetchAndExtract_pages:
  assumes "fetchAndExtract rt lm = Inr perPage"
  shows "\<forall>items \<in> set perPage. \<exists>html.
           extractItemList rt html (itemSelector lm) (lm_fields lm) (extractOptsOf lm) = Inr items"
proof -
  from assms obtain pages where
    "Effect_all (map (\<lambda>html. extractItemList rt html (itemSelector lm) (lm_fields lm)
        (extractOptsOf lm)) pages) = Inr perPage"
    by (auto simp: fetchAndExtract_def split: sum.splits)
  then have m: "map (\<lambda>html. extractItemList rt html (itemSelector lm) (lm_fields lm)
        (extractOptsOf lm)) pages = map Inr perPage"
    by (rule Effect_all_Inr)
  show ?thesis
  proof
    fix items assume "items \<in> set perPage"
    then have "Inr items \<in> set (map (\<lambda>html. extractItemList rt html (itemSelector lm) (lm_fields lm)
        (extractOptsOf lm)) pages)"
      unfolding m by simp
    then show "\<exists>html. extractItemList rt html (itemSelector lm) (lm_fields lm) (extractOptsOf lm)
        = Inr items"
      by auto
  qed
qed

lemma candidates_extracted: "set (candidatesOf rt limit (itemByIdOf perPage)) \<subseteq> set (concat perPage)"
proof
  fix c assume "c \<in> set (candidatesOf rt limit (itemByIdOf perPage))"
  with candidatesOf_subset obtain k where "(k, c) \<in> set (itemByIdOf perPage)" by fastforce
  then show "c \<in> set (concat perPage)" using itemByIdOf_mem by blast
qed

lemma checkListItems_outputs:
  "(\<forall>new. map_option res_newItems (fst (checkListItems rt lm perPage state)) = Some (Some new)
        \<longrightarrow> set new \<subseteq> set (concat perPage))
   \<and> (\<forall>msg \<in> set (snd (snd (checkListItems rt lm perPage state))).
        msg = nowMonitoringList rt lm (allIdsOf (itemByIdOf perPage))
        \<or> (\<exists>new. set new \<subseteq> set (concat perPage)
              \<and> msg = formatNewItems (lm_name lm) new (sections lm)))"
proof (cases "itemByIdOf perPage = []")
  case True
  then show ?thesis by (simp add: checkListItems_empty plain_def)
next
  case ne: False
  show ?thesis
  proof (cases "map_of state (monitorKey rt (lm_name lm))")
    case None
    show ?thesis
      unfolding checkListItems_first [OF ne None]
      by (simp add: Let_def caught_def plain_def)
  next
    case (Some raw)
    show ?thesis
    proof (cases "JSON_parse rt raw")
      case None
      with ne Some show ?thesis
        by (simp add: checkListItems_def Let_def died_def)
    next
      case v: (Some v)
      show ?thesis
      proof (cases "new_Set v")
        case (Inl e)
        with ne Some v show ?thesis
          by (simp add: checkListItems_def Let_def died_def)
      next
        case (Inr prev)
        have sub: "set (newItemsOf prev (candidatesOf rt (maxPrice lm) (itemByIdOf perPage)))
            \<subseteq> set (concat perPage)"
          using newItemsOf_subset candidates_extracted by blast
        show ?thesis
          unfolding checkListItems_prior [OF ne Some v Inr]
          using sub by (auto simp: Let_def caught_def plain_def)
      qed
    qed
  qed
qed

lemma mixed_extract:
  "extractItemList (demoRuntime mixedPages True) ''p1'' ''li.item''
      [(''title'', ''.title''), (''price'', ''.price'')]
      (extractOptsOf (demoMonitor [''p1''] None))
   = Inr [exampleItem ''b'' ''Batman 2'' ''$5.00'']"
  "fetchAndExtract (demoRuntime mixedPages True) (demoMonitor [''p1''] None)
   = Inr [[exampleItem ''b'' ''Batman 2'' ''$5.00'']]"
  "cheerioSelect (demoRuntime mixedPages True) ''p1'' ''li.item''
   = Some [demoElement ''b'' ''Batman 2'' ''$5.00'',
           [(''.title'', ''No id''), (''.price'', ''$2.00'')],
           demoElement [] ''Empty id'' ''$3.00'']"
  "resolveId (demoRuntime mixedPages True) None [(''.url'', ''/products/ABC123/about?x=1'')]
      [(''url'', Some ''https://shop.test/products/ABC123/about?x=1'')] = Some ''ABC123''"
  "elementFields (demoRuntime mixedPages True) [(''title'', ''.title''), (''price'', ''.price'')]
      (extractOptsOf (demoMonitor [''p1''] None)) [(''.title'', ''No id''), (''.price'', ''$2.00'')]
   = Inr [(''title'', Some ''No id''), (''price'', Some ''$2.00'')]"
  "resolveId (demoRuntime mixedPages True) (Some ''data-id'')
      [(''.title'', ''No id''), (''.price'', ''$2.00'')]
      [(''title'', Some ''No id''), (''price'', Some ''$2.00'')] = None"
  by code_simp+

text \<open>
  Claim C6. When \<open>extractItemList\<close> returns, its items are, in the order of the elements
  that the item selector matched, the items of the elements for which an id was resolved;
  an element whose resolved id is missing or empty yields \<open>None\<close> and adds nothing. Every
  emitted item has a non-empty id, which is the resolved id of its element, and a resolved
  id comes from the configured id attribute of the element or, when none is configured,
  from the \<open>/products/<code>\<close> segment of the extracted \<open>url\<close> field. What a list check
  does with the pages rests on these items only: each page's list is a result of
  \<open>extractItemList\<close>, the ids it persists are exactly the ids of the extracted items, the
  new items it reports are extracted items, and every message it sends is the
  "Now monitoring" message or the notification of extracted items.
\<close>

theorem only_items_with_id_are_emitted:
  "(extractItemList rt html itemSel fs opts = Inr items \<longrightarrow>
      (\<exists>els. cheerioSelect rt html itemSel = Some els
          \<and> items = concat (map (\<lambda>el. case extractElement rt fs opts el of
                                          Inr (Some item) \<Rightarrow> [item] | _ \<Rightarrow> []) els)
          \<and> (\<forall>el \<in> set els. \<exists>flds. elementFields rt fs opts el = Inr flds
                \<and> extractElement rt fs opts el =
                    (if truthy (resolveId rt (idAttribute opts) el flds)
                     then Inr (Some \<lparr>item_id = the (resolveId rt (idAttribute opts) el flds),
                            item_url = resolveUrl (urlTemplate opts)
                                         (resolveId rt (idAttribute opts) el flds) flds,
                            item_fields = flds\<rparr>)
                     else Inr None))
          \<and> (\<forall>item \<in> set items. item_id item \<noteq> []
                \<and> (\<exists>el \<in> set els. resolveId rt (idAttribute opts) el (item_fields item)
                                     = Some (item_id item)))))
   \<and> (resolveId rt idAttr el0 flds0 = Some i \<longrightarrow>
        (truthy idAttr \<and> cheerioAttr rt el0 (the idAttr) = Some i)
        \<or> (\<not> truthy idAttr \<and> (\<exists>u. getField flds0 ''url'' = Some u \<and> productsMatch u = Some i)))
   \<and> (fetchAndExtract rt lm = Inr perPage \<longrightarrow>
        (\<forall>its \<in> set perPage. \<exists>page.
            extractItemList rt page (itemSelector lm) (lm_fields lm) (extractOptsOf lm) = Inr its)
        \<and> set (allIdsOf (itemByIdOf perPage)) = item_id ` set (concat perPage)
        \<and> (\<forall>new. map_option res_newItems (fst (checkListMonitor rt lm state)) = Some (Some new)
              \<longrightarrow> set new \<subseteq> set (concat perPage))
        \<and> (\<forall>msg \<in> set (snd (snd (checkListMonitor rt lm state))).
              msg = nowMonitoringList rt lm (allIdsOf (itemByIdOf perPage))
              \<or> (\<exists>new. set new \<subseteq> set (concat perPage)
                    \<and> msg = formatNewItems (lm_name lm) new (sections lm))))"
proof (intro conjI impI)
  assume "extractItemList rt html itemSel fs opts = Inr items"
  then show "\<exists>els. cheerioSelect rt html itemSel = Some els
          \<and> items = concat (map (\<lambda>el. case extractElement rt fs opts el of
                                          Inr (Some item) \<Rightarrow> [item] | _ \<Rightarrow> []) els)
          \<and> (\<forall>el \<in> set els. \<exists>flds. elementFields rt fs opts el = Inr flds
                \<and> extractElement rt fs opts el =
                    (if truthy (resolveId rt (idAttribute opts) el flds)
                     then Inr (Some \<lparr>item_id = the (resolveId rt (idAttribute opts) el flds),
                            item_url = resolveUrl (urlTemplate opts)
                                         (resolveId rt (idAttribute opts) el flds) flds,
                            item_fields = flds\<rparr>)
                     else Inr None))
          \<and> (\<forall>item \<in> set items. item_id item \<noteq> []
                \<and> (\<exists>el \<in> set els. resolveId rt (idAttribute opts) el (item_fields item)
                                     = Some (item_id item)))"
    by (rule extractItemList_closed)
next
  assume "resolveId rt idAttr el0 flds0 = Some i"
  then show "(truthy idAttr \<and> cheerioAttr rt el0 (the idAttr) = Some i)
        \<or> (\<not> truthy idAttr \<and> (\<exists>u. getField flds0 ''url'' = Some u \<and> productsMatch u = Some i))"
    by (rule resolveId_routes)
next
  assume f: "fetchAndExtract rt lm = Inr perPage"
  then show "\<forall>its \<in> set perPage. \<exists>page.
      extractItemList rt page (itemSelector lm) (lm_fields lm) (extractOptsOf lm) = Inr its"
    by (rule fetchAndExtract_pages)
  show "set (allIdsOf (itemByIdOf perPage)) = item_id ` set (concat perPage)"
    by (rule allIdsOf_set)
  have c: "checkListMonitor rt lm state = checkListItems rt lm perPage state"
    using f by (simp add: checkListMonitor_def)
  show "\<forall>new. map_option res_newItems (fst (checkListMonitor rt lm state)) = Some (Some new)
      \<longrightarrow> set new \<subseteq> set (concat perPage)"
    unfolding c using checkListItems_outputs [of rt lm perPage state] by blast
  show "\<forall>msg \<in> set (snd (snd (checkListMonitor rt lm state))).
      msg = nowMonitoringList rt lm (allIdsOf (itemByIdOf perPage))
      \<or> (\<exists>new. set new \<subseteq> set (concat perPage)
            \<and> msg = formatNewItems (lm_name lm) new (sections lm))"
    unfolding c using checkListItems_outputs [of rt lm perPage state] by blast
qed

theorem only_items_with_id_are_emitted_witness:
  "extractItemList (demoRuntime mixedPages True) ''p1'' ''li.item''
      [(''title'', ''.title''), (''price'', ''.price'')]
      (extractOptsOf (demoMonitor [''p1''] None))
   = Inr [exampleItem ''b'' ''Batman 2'' ''$5.00'']
   \<and> cheerioSelect (demoRuntime mixedPages True) ''p1'' ''li.item''
      = Some [demoElement ''b'' ''Batman 2'' ''$5.00'',
           [(''.title'', ''No id''), (''.price'', ''$2.00'')],
           demoElement [] ''Empty id'' ''$3.00'']
   \<and> extractElement (demoRuntime mixedPages True) [(''title'', ''.title''), (''price'', ''.price'')]
        (extractOptsOf (demoMonitor [''p1''] None)) [(''.title'', ''No id''), (''.price'', ''$2.00'')]
      = Inr None
   \<and> resolveId (demoRuntime mixedPages True) None [(''.url'', ''/products/ABC123/about?x=1'')]
        [(''url'', Some ''https://shop.test/products/ABC123/about?x=1'')] = Some ''ABC123''
   \<and> productsMatch ''https://shop.test/products/ABC123/about?x=1'' = Some ''ABC123''
   \<and> fetchAndExtract (demoRuntime mixedPages True) (demoMonitor [''p1''] None)
      = Inr [[exampleItem ''b'' ''Batman 2'' ''$5.00'']]
   \<and> set (allIdsOf (itemByIdOf [[exampleItem ''b'' ''Batman 2'' ''$5.00'']])) = {''b''}"
proof -
  let ?rt = "demoRuntime mixedPages True"
  let ?fs = "[(''title'', ''.title''), (''price'', ''.price'')]"
  let ?opts = "extractOptsOf (demoMonitor [''p1''] None)"
  let ?noid = "[(''.title'', ''No id''), (''.price'', ''$2.00'')]"
  note t = only_items_with_id_are_emitted [of ?rt "''p1''" "''li.item''" ?fs ?opts
      "[exampleItem ''b'' ''Batman 2'' ''$5.00'']" None "[(''.url'', ''/products/ABC123/about?x=1'')]"
      "[(''url'', Some ''https://shop.test/products/ABC123/about?x=1'')]" "''ABC123''"
      "demoMonitor [''p1''] None" "[[exampleItem ''b'' ''Batman 2'' ''$5.00'']]" "[]"]
  have ia: "idAttribute ?opts = Some ''data-id''" by (simp add: extractOptsOf_def demoMonitor_def)
  from t mixed_extract(1,3) have "\<exists>flds. elementFields ?rt ?fs ?opts ?noid = Inr flds
      \<and> extractElement ?rt ?fs ?opts ?noid =
          (if truthy (resolveId ?rt (idAttribute ?opts) ?noid flds)
           then Inr (Some \<lparr>item_id = the (resolveId ?rt (idAttribute ?opts) ?noid flds),
                  item_url = resolveUrl (urlTemplate ?opts) (resolveId ?rt (idAttribute ?opts) ?noid flds) flds,
                  item_fields = flds\<rparr>)
           else Inr None)"
    by simp
  with mixed_extract(5,6) ia have none: "extractElement ?rt ?fs ?opts ?noid = Inr None"
    by (auto simp: truthy_def)
  from t mixed_extract(4) have "\<exists>u. getField [(''url'', Some ''https://shop.test/products/ABC123/about?x=1'')] ''url'' = Some u
      \<and> productsMatch u = Some ''ABC123''"
    by (simp add: truthy_def)
  then have pm: "productsMatch ''https://shop.test/products/ABC123/about?x=1'' = Some ''ABC123''"
    by (simp add: getField_def)
  from t mixed_extract(2) have "set (allIdsOf (itemByIdOf [[exampleItem ''b'' ''Batman 2'' ''$5.00'']]))
      = item_id ` set (concat [[exampleItem ''b'' ''Batman 2'' ''$5.00'']])"
    by blast
  then have ids: "set (allIdsOf (itemByIdOf [[exampleItem ''b'' ''Batman 2'' ''$5.00'']])) = {''b''}"
    by (simp add: exampleItem_def)
  from mixed_extract(1-4) none pm ids show ?thesis by simp
qed

section \<open>Grouping by section\<close>

subsection \<open>Substrings\<close>

lemma includesStr_iff: "includesStr h n \<longleftrightarrow> (\<exists>pre post. h = pre @ n @ post)"
proof (induction h)
  case Nil
  then show ?case by simp
next
  case (Cons c cs)
  have st: "startsWith (c # cs) n \<longleftrightarrow> (\<exists>post. c # cs = n @ post)"
    unfolding startsWith_def by (metis append_eq_conv_conj append_take_drop_id)
  show ?case
  proof
    assume "includesStr (c # cs) n"
    then consider "startsWith (c # cs) n" | "includesStr cs n" by auto
    then show "\<exists>pre post. c # cs = pre @ n @ post"
    proof cases
      case 1
      with st obtain post where "c # cs = [] @ n @ post" by auto
      then show ?thesis by blast
    next
      case 2
      with Cons.IH obtain pre post where "cs = pre @ n @ post" by blast
      then have "c # cs = (c # pre) @ n @ post" by simp
      then show ?thesis by blast
    qed
  next
    assume "\<exists>pre post. c # cs = pre @ n @ post"
    then obtain pre post where e: "c # cs = pre @ n @ post" by blast
    show "includesStr (c # cs) n"
    proof (cases pre)
      case Nil
      with e have "c # cs = n @ post" by simp
      then have "startsWith (c # cs) n" using st by blast
      then show ?thesis by simp
    next
      case (Cons p ps)
      with e have "cs = ps @ n @ post" by simp
      then have "includesStr cs n" using Cons.IH by blast
      then show ?thesis by simp
    qed
  qed
qed

subsection \<open>Letter case\<close>

lemma capital_A_Z:
  "c \<in> set ''ABCDEFGHIJKLMNOPQRSTUVWXYZ'' \<longleftrightarrow> 65 \<le> (of_char c :: nat) \<and> (of_char c :: nat) \<le> 90"
proof
  assume "c \<in> set ''ABCDEFGHIJKLMNOPQRSTUVWXYZ''"
  then show "65 \<le> (of_char c :: nat) \<and> (of_char c :: nat) \<le> 90" by auto
next
  assume a: "65 \<le> (of_char c :: nat) \<and> (of_char c :: nat) \<le> 90"
  have "(of_char c :: nat) \<in> of_char ` set ''ABCDEFGHIJKLMNOPQRSTUVWXYZ''"
    using a by simp arith
  then obtain d where "(of_char c :: nat) = of_char d" and d: "d \<in> set ''ABCDEFGHIJKLMNOPQRSTUVWXYZ''"
    by (rule imageE)
  then have "c = d" by (simp only: of_char_eq_iff)
  with d show "c \<in> set ''ABCDEFGHIJKLMNOPQRSTUVWXYZ''" by simp
qed

lemma isUpper_capitalLetter: "isUpper c = capitalLetter c"
  unfolding isUpper_def capitalLetter_def Let_def capital_A_Z by simp

lemma of_char_lowerChar:
  "(of_char (lowerChar c) :: nat) = (if capitalLetter c then of_char c + 32 else of_char c)"
proof (cases "capitalLetter c")
  case True
  then have "(of_char c :: nat) + 32 < 256"
    unfolding capitalLetter_def capital_A_Z by auto
  with True show ?thesis
    by (simp add: lowerChar_def isUpper_capitalLetter)
next
  case False
  then show ?thesis by (simp add: lowerChar_def isUpper_capitalLetter)
qed

lemma lowerChar_sameLetter: "lowerChar c = lowerChar d \<longleftrightarrow> sameLetter c d"
proof -
  have eq: "c = d \<longleftrightarrow> (of_char c :: nat) = of_char d"
    by (simp only: of_char_eq_iff)
  have "lowerChar c = lowerChar d \<longleftrightarrow> (of_char (lowerChar c) :: nat) = of_char (lowerChar d)"
    by (simp only: of_char_eq_iff)
  also have "\<dots> \<longleftrightarrow> sameLetter c d"
    unfolding of_char_lowerChar sameLetter_def capitalLetter_def capital_A_Z eq
    by presburger
  finally show ?thesis .
qed

subsection \<open>A keyword in a title\<close>

lemma startsIgnoringCase_lower:
  "startsIgnoringCase title key \<longleftrightarrow> startsWith (toLowerCase title) (toLowerCase key)"
proof (induction title key rule: startsIgnoringCase.induct)
  case (1 title)
  then show ?case by (simp add: startsWith_def toLowerCase_def)
next
  case (2 k ks)
  then show ?case by (simp add: startsWith_def toLowerCase_def)
next
  case (3 c cs k ks)
  then show ?case
    by (auto simp: startsWith_def toLowerCase_def lowerChar_sameLetter)
qed

lemma occursIgnoringCase_lower:
  "occursIgnoringCase key title \<longleftrightarrow> includesStr (toLowerCase title) (toLowerCase key)"
proof (induction title)
  case Nil
  then show ?case by (simp add: toLowerCase_def)
next
  case (Cons c cs)
  have "startsIgnoringCase (c # cs) key \<longleftrightarrow> startsWith (toLowerCase (c # cs)) (toLowerCase key)"
    by (rule startsIgnoringCase_lower)
  with Cons.IH show ?case by (simp add: toLowerCase_def)
qed

lemma startsIgnoringCase_iff:
  "startsIgnoringCase title key \<longleftrightarrow> (\<exists>mid post. title = mid @ post \<and> list_all2 sameLetter mid key)"
proof (induction title key rule: startsIgnoringCase.induct)
  case (1 title)
  then show ?case by simp
next
  case (2 k ks)
  then show ?case by simp
next
  case (3 c cs k ks)
  show ?case
  proof
    assume "startsIgnoringCase (c # cs) (k # ks)"
    with 3 obtain mid post where "sameLetter c k" "cs = mid @ post" "list_all2 sameLetter mid ks"
      by auto
    then have "c # cs = (c # mid) @ post \<and> list_all2 sameLetter (c # mid) (k # ks)" by simp
    then show "\<exists>mid post. c # cs = mid @ post \<and> list_all2 sameLetter mid (k # ks)" by blast
  next
    assume "\<exists>mid post. c # cs = mid @ post \<and> list_all2 sameLetter mid (k # ks)"
    then obtain mid post where m: "c # cs = mid @ post" "list_all2 sameLetter mid (k # ks)" by blast
    from m(2) obtain x xs where x: "mid = x # xs" "sameLetter x k" "list_all2 sameLetter xs ks"
      by (auto simp: list_all2_Cons2)
    with m(1) have "c = x" "cs = xs @ post" by simp_all
    with x 3 show "startsIgnoringCase (c # cs) (k # ks)" by auto
  qed
qed

lemma occursIgnoringCase_iff:
  "occursIgnoringCase key title \<longleftrightarrow>
     (\<exists>pre mid post. title = pre @ mid @ post \<and> list_all2 sameLetter mid key)"
proof (induction title)
  case Nil
  then show ?case by auto
next
  case (Cons c cs)
  show ?case
  proof
    assume "occursIgnoringCase key (c # cs)"
    then consider "startsIgnoringCase (c # cs) key" | "occursIgnoringCase key cs" by auto
    then show "\<exists>pre mid post. c # cs = pre @ mid @ post \<and> list_all2 sameLetter mid key"
    proof cases
      case 1
      then obtain mid post where "c # cs = [] @ mid @ post" "list_all2 sameLetter mid key"
        unfolding startsIgnoringCase_iff by auto
      then show ?thesis by blast
    next
      case 2
      with Cons.IH obtain pre mid post where "cs = pre @ mid @ post" "list_all2 sameLetter mid key"
        by blast
      then have "c # cs = (c # pre) @ mid @ post \<and> list_all2 sameLetter mid key" by simp
      then show ?thesis by blast
    qed
  next
    assume "\<exists>pre mid post. c # cs = pre @ mid @ post \<and> list_all2 sameLetter mid key"
    then obtain pre mid post where e: "c # cs = pre @ mid @ post" and l: "list_all2 sameLetter mid key"
      by blast
    show "occursIgnoringCase key (c # cs)"
    proof (cases pre)
      case Nil
      with e l have "startsIgnoringCase (c # cs) key"
        unfolding startsIgnoringCase_iff by auto
      then show ?thesis by simp
    next
      case (Cons p ps)
      with e have "cs = ps @ mid @ post" by simp
      with l Cons.IH have "occursIgnoringCase key cs" by blast
      then show ?thesis by simp
    qed
  qed
qed

lemma detectSectionLoop_find:
  "detectSectionLoop (toLowerCase title) secs =
     (case find (\<lambda>key. occursIgnoringCase key title) secs of Some key \<Rightarrow> key | None \<Rightarrow> ''Others'')"
  by (induction secs) (simp_all add: occursIgnoringCase_lower)

lemma detectSection_keywordOf:
  "detectSection (titleOf item) secs = (case keywordOf secs item of Some key \<Rightarrow> key | None \<Rightarrow> ''Others'')"
  by (simp add: detectSection_def keywordOf_def detectSectionLoop_find)

lemma keywordOf_mem: "keywordOf secs item = Some key \<Longrightarrow> key \<in> set secs"
  unfolding keywordOf_def by (auto simp: find_Some_iff)

lemma detectSection_keyword:
  assumes "''Others'' \<notin> set secs" and "key \<in> set secs"
  shows "detectSection (titleOf item) secs = key \<longleftrightarrow> keywordOf secs item = Some key"
proof (cases "keywordOf secs item")
  case None
  with assms show ?thesis by (auto simp: detectSection_keywordOf)
next
  case (Some k)
  then show ?thesis by (simp add: detectSection_keywordOf)
qed

lemma detectSection_Others:
  assumes "''Others'' \<notin> set secs"
  shows "detectSection (titleOf item) secs = ''Others'' \<longleftrightarrow> keywordOf secs item = None"
proof (cases "keywordOf secs item")
  case None
  then show ?thesis by (simp add: detectSection_keywordOf)
next
  case (Some k)
  with keywordOf_mem [OF Some] assms show ?thesis by (auto simp: detectSection_keywordOf)
qed

subsection \<open>The groups of the code\<close>

lemma pushGroup_map_of:
  "map_of (pushGroup secs g item) s =
     (if s = detectSection (titleOf item) secs
      then Some ((case map_of g s of Some its \<Rightarrow> its | None \<Rightarrow> []) @ [item])
      else map_of g s)"
  by (auto simp: pushGroup_def Let_def Map_has_def Map_get_def AList.update_conv')

lemma foldl_pushGroup:
  assumes "\<And>s. map_of g s = (if filter (\<lambda>i. detectSection (titleOf i) secs = s) before = [] then None
                            else Some (filter (\<lambda>i. detectSection (titleOf i) secs = s) before))"
  shows "map_of (foldl (pushGroup secs) g items) s =
     (if filter (\<lambda>i. detectSection (titleOf i) secs = s) (before @ items) = [] then None
      else Some (filter (\<lambda>i. detectSection (titleOf i) secs = s) (before @ items)))"
  using assms
proof (induction items arbitrary: g before)
  case Nil
  then show ?case by simp
next
  case (Cons item items)
  have "map_of (pushGroup secs g item) s' =
      (if filter (\<lambda>i. detectSection (titleOf i) secs = s') (before @ [item]) = [] then None
       else Some (filter (\<lambda>i. detectSection (titleOf i) secs = s') (before @ [item])))" for s'
    by (simp add: pushGroup_map_of Cons.prems)
  from Cons.IH [of "pushGroup secs g item" "before @ [item]", OF this] show ?case by simp
qed

lemma groupItems_map_of:
  "map_of (groupItems items secs) s =
     (if filter (\<lambda>i. detectSection (titleOf i) secs = s) items = [] then None
      else Some (filter (\<lambda>i. detectSection (titleOf i) secs = s) items))"
  unfolding groupItems_def using foldl_pushGroup [of "[]" secs "[]" items s] by simp

lemma groupItems_has:
  "Map_has (groupItems items secs) s \<longleftrightarrow> filter (\<lambda>i. detectSection (titleOf i) secs = s) items \<noteq> []"
  by (simp add: Map_has_def groupItems_map_of)

lemma groupItems_get:
  "Map_has (groupItems items secs) s \<Longrightarrow>
     the (Map_get (groupItems items secs) s) = filter (\<lambda>i. detectSection (titleOf i) secs = s) items"
  by (auto simp: Map_has_def Map_get_def groupItems_map_of split: if_splits)

lemma foldl_append_concat: "foldl (\<lambda>acc x. acc @ f x) a xs = a @ concat (map f xs)"
  by (induction xs arbitrary: a) simp_all

lemma formatNewItems_sections:
  assumes "secs \<noteq> []"
  shows "formatNewItems name items (Some secs) =
     join [NL] (foldl (\<lambda>lines section. lines @ [[], ''<b>'' @ esc section @ ''</b>'']
                         @ map formatItemLine (the (Map_get (groupItems items secs) section)))
                  [newItemsHeader name items]
                  (filter (Map_has (groupItems items secs)) secs
                   @ (if Map_has (groupItems items secs) ''Others'' then [''Others''] else [])))"
  using assms by (simp add: formatNewItems_def Let_def)

text \<open>What the code renders for one section of \<open>ordered\<close>: the block of the items that
  \<open>detectSection\<close> puts under it.\<close>

lemma formatNewItems_blocks:
  assumes "secs \<noteq> []"
  shows "formatNewItems name items (Some secs) =
     join [NL] (newItemsHeader name items #
       concat (map (\<lambda>s. groupBlock s (filter (\<lambda>i. detectSection (titleOf i) secs = s) items))
                 (secs @ [''Others''])))"
proof -
  let ?G = "groupItems items secs"
  let ?its = "\<lambda>s. filter (\<lambda>i. detectSection (titleOf i) secs = s) items"
  let ?ordered = "filter (Map_has ?G) secs @ (if Map_has ?G ''Others'' then [''Others''] else [])"
  let ?blk = "\<lambda>section. [[], ''<b>'' @ esc section @ ''</b>'']
                @ map formatItemLine (the (Map_get ?G section))"
  have ord: "?ordered = filter (\<lambda>s. ?its s \<noteq> []) (secs @ [''Others''])"
    by (simp add: groupItems_has cong: filter_cong)
  have blk: "?blk s = groupBlock s (?its s)" if "s \<in> set ?ordered" for s
  proof -
    from that have h: "Map_has ?G s" by (auto split: if_splits)
    then have "the (Map_get ?G s) = ?its s" by (rule groupItems_get)
    moreover from h have "?its s \<noteq> []" by (simp add: groupItems_has)
    ultimately show ?thesis by (simp only: groupBlock_def if_False)
  qed
  have blocks: "map ?blk ?ordered = map (\<lambda>s. groupBlock s (?its s)) ?ordered"
    using blk by (rule map_cong [OF refl])
  have omit: "concat (map (\<lambda>s. groupBlock s (?its s)) (filter (\<lambda>s. ?its s \<noteq> []) xs))
      = concat (map (\<lambda>s. groupBlock s (?its s)) xs)" for xs
    by (induction xs) (simp_all add: groupBlock_def)
  have "foldl (\<lambda>lines section. lines @ ?blk section) [newItemsHeader name items] ?ordered
      = [newItemsHeader name items] @ concat (map ?blk ?ordered)"
    by (rule foldl_append_concat)
  also have "\<dots> = newItemsHeader name items # concat (map (\<lambda>s. groupBlock s (?its s)) ?ordered)"
    unfolding blocks by simp
  also have "\<dots> = newItemsHeader name items
      # concat (map (\<lambda>s. groupBlock s (?its s)) (secs @ [''Others'']))"
    by (simp only: ord omit)
  finally have lines: "foldl (\<lambda>lines section. lines @ ?blk section) [newItemsHeader name items] ?ordered
      = newItemsHeader name items # concat (map (\<lambda>s. groupBlock s (?its s)) (secs @ [''Others'']))" .
  show ?thesis
    by (simp only: formatNewItems_sections [OF assms] lines)
qed

lemma keywordsOnce_set: "set (keywordsOnce secs) = set secs"
  by (induction secs) auto

lemma keywordsOnce_distinct: "distinct secs \<Longrightarrow> keywordsOnce secs = secs"
proof (induction secs)
  case Nil
  then show ?case by simp
next
  case (Cons key rest)
  then have "keywordsOnce rest = rest" "key \<notin> set rest" by simp_all
  then show ?case by (auto simp: filter_id_conv)
qed

lemma formatNewItems_grouped:
  assumes "secs \<noteq> []" and "distinct secs" and "''Others'' \<notin> set secs"
  shows "formatNewItems name items (Some secs) = join [NL] (groupedLines name items secs)"
proof -
  have k: "map (\<lambda>s. groupBlock s (filter (\<lambda>i. detectSection (titleOf i) secs = s) items)) secs
      = map (\<lambda>key. groupBlock key (filter (\<lambda>i. keywordOf secs i = Some key) items)) secs"
    by (rule map_cong [OF refl]) (simp add: detectSection_keyword [OF assms(3)])
  have o: "filter (\<lambda>i. detectSection (titleOf i) secs = ''Others'') items
      = filter (\<lambda>i. keywordOf secs i = None) items"
    by (simp add: detectSection_Others [OF assms(3)])
  show ?thesis
    unfolding formatNewItems_blocks [OF assms(1)] groupedLines_def keywordsOnce_distinct [OF assms(2)]
    by (simp add: k o)
qed

text \<open>
  Claim C7, as amended. Let the configured section keywords be pairwise distinct and none
  of them be "Others". Then the message of \<open>formatNewItems\<close> is the grouped message of
  the specification (\<open>groupedLines\<close>, joined by newlines): each item is under the first
  configured keyword that occurs in its title, letter case set aside, the groups follow in
  the keywords' configured order, the items whose title has no keyword come in a last group
  "Others", and a group without items is left out. \<open>detectSection\<close> returns the first
  keyword that occurs in the title, or "Others", and to occur is to agree letter by letter
  with a stretch of the title, where a capital letter and its small letter are the same
  letter. In the example the keywords are X-Men and Avengers: "Avengers: New #1" and
  "AVENGERS WEST" are under "Avengers", "the uncanny x-men" is under "X-Men", which comes
  first, and "Untitled Comic" is under "Others", rendered last although it is the first
  item.
\<close>

theorem formatNewItems_groups_by_section:
  assumes "secs \<noteq> []" and "distinct secs" and "''Others'' \<notin> set secs"
  shows "formatNewItems name items (Some secs) = join [NL] (groupedLines name items secs)
       \<and> (\<forall>title. detectSection title secs =
             (case find (\<lambda>key. occursIgnoringCase key title) secs of
                Some key \<Rightarrow> key | None \<Rightarrow> ''Others''))
       \<and> (\<forall>key title. occursIgnoringCase key title \<longleftrightarrow>
             (\<exists>pre mid post. title = pre @ mid @ post \<and> list_all2 sameLetter mid key))"
proof (intro conjI allI)
  show "formatNewItems name items (Some secs) = join [NL] (groupedLines name items secs)"
    using assms by (rule formatNewItems_grouped)
  show "detectSection title secs =
      (case find (\<lambda>key. occursIgnoringCase key title) secs of Some key \<Rightarrow> key | None \<Rightarrow> ''Others'')"
    for title
    by (simp add: detectSection_def detectSectionLoop_find)
  show "occursIgnoringCase key title \<longleftrightarrow>
      (\<exists>pre mid post. title = pre @ mid @ post \<and> list_all2 sameLetter mid key)" for key title
    by (rule occursIgnoringCase_iff)
qed

theorem formatNewItems_groups_by_section_witness:
  "[''X-Men'', ''Avengers''] \<noteq> [] \<and> distinct [''X-Men'', ''Avengers'']
   \<and> ''Others'' \<notin> set [''X-Men'', ''Avengers'']
   \<and> detectSection ''Avengers: New #1'' [''X-Men'', ''Avengers''] = ''Avengers''
   \<and> detectSection ''Untitled Comic'' [''X-Men'', ''Avengers''] = ''Others''
   \<and> detectSection ''the uncanny x-men'' [''X-Men'', ''Avengers''] = ''X-Men''
   \<and> detectSection ''AVENGERS WEST'' [''X-Men'', ''Avengers''] = ''Avengers''
   \<and> formatNewItems ''shop''
        [exampleItem ''u'' ''Untitled Comic'' ''$3.00'', exampleItem ''a'' ''Avengers: New #1'' ''$5.00'',
         exampleItem ''x'' ''the uncanny x-men'' ''$4.00'', exampleItem ''w'' ''AVENGERS WEST'' ''$2.00'']
        (Some [''X-Men'', ''Avengers''])
      = join [NL]
          [newItemsHeader ''shop''
             [exampleItem ''u'' ''Untitled Comic'' ''$3.00'', exampleItem ''a'' ''Avengers: New #1'' ''$5.00'',
              exampleItem ''x'' ''the uncanny x-men'' ''$4.00'', exampleItem ''w'' ''AVENGERS WEST'' ''$2.00''],
           [], ''<b>X-Men</b>'', formatItemLine (exampleItem ''x'' ''the uncanny x-men'' ''$4.00''),
           [], ''<b>Avengers</b>'', formatItemLine (exampleItem ''a'' ''Avengers: New #1'' ''$5.00''),
           formatItemLine (exampleItem ''w'' ''AVENGERS WEST'' ''$2.00''),
           [], ''<b>Others</b>'', formatItemLine (exampleItem ''u'' ''Untitled Comic'' ''$3.00'')]"
proof -
  let ?secs = "[''X-Men'', ''Avengers'']"
  let ?items = "[exampleItem ''u'' ''Untitled Comic'' ''$3.00'', exampleItem ''a'' ''Avengers: New #1'' ''$5.00'',
         exampleItem ''x'' ''the uncanny x-men'' ''$4.00'', exampleItem ''w'' ''AVENGERS WEST'' ''$2.00'']"
  have h: "?secs \<noteq> []" "distinct ?secs" "''Others'' \<notin> set ?secs" by simp_all
  have f: "find (\<lambda>key. occursIgnoringCase key ''Avengers: New #1'') ?secs = Some ''Avengers''"
    "find (\<lambda>key. occursIgnoringCase key ''Untitled Comic'') ?secs = None"
    "find (\<lambda>key. occursIgnoringCase key ''the uncanny x-men'') ?secs = Some ''X-Men''"
    "find (\<lambda>key. occursIgnoringCase key ''AVENGERS WEST'') ?secs = Some ''Avengers''"
    by code_simp+
  have g: "groupedLines ''shop'' ?items ?secs
      = [newItemsHeader ''shop'' ?items,
         [], ''<b>X-Men</b>'', formatItemLine (exampleItem ''x'' ''the uncanny x-men'' ''$4.00''),
         [], ''<b>Avengers</b>'', formatItemLine (exampleItem ''a'' ''Avengers: New #1'' ''$5.00''),
         formatItemLine (exampleItem ''w'' ''AVENGERS WEST'' ''$2.00''),
         [], ''<b>Others</b>'', formatItemLine (exampleItem ''u'' ''Untitled Comic'' ''$3.00'')]"
    by code_simp
  note grp = formatNewItems_groups_by_section [OF h, of "''shop''" "?items"]
  from grp have d: "detectSection title ?secs =
      (case find (\<lambda>key. occursIgnoringCase key title) ?secs of Some key \<Rightarrow> key | None \<Rightarrow> ''Others'')"
    for title by blast
  have "detectSection ''Avengers: New #1'' ?secs = ''Avengers''"
    "detectSection ''Untitled Comic'' ?secs = ''Others''"
    "detectSection ''the uncanny x-men'' ?secs = ''X-Men''"
    "detectSection ''AVENGERS WEST'' ?secs = ''Avengers''"
    by (simp_all only: d f option.case)
  moreover from grp have "formatNewItems ''shop'' ?items (Some ?secs)
      = join [NL] (groupedLines ''shop'' ?items ?secs)"
    by blast
  ultimately show ?thesis using h by (simp only: g simp_thms)
qed

text \<open>As the claim is written it holds for all keywords. A keyword "Others" shares its
  group with the items that have no keyword, and the group is rendered twice, once in the
  place of the keyword and once at the end: "Untitled Comic", whose title has no keyword,
  stands in both blocks. A keyword that is configured twice has its block rendered
  twice.\<close>

theorem section_named_Others_is_rendered_twice:
  "formatNewItems ''shop'' [exampleItem ''u'' ''Untitled Comic'' ''$3.00''] (Some [''Others''])
     = join [NL]
         [newItemsHeader ''shop'' [exampleItem ''u'' ''Untitled Comic'' ''$3.00''],
          [], ''<b>Others</b>'', formatItemLine (exampleItem ''u'' ''Untitled Comic'' ''$3.00''),
          [], ''<b>Others</b>'', formatItemLine (exampleItem ''u'' ''Untitled Comic'' ''$3.00'')]
   \<and> occursIgnoringCase ''Others'' ''Untitled Comic'' = False
   \<and> groupedLines ''shop'' [exampleItem ''u'' ''Untitled Comic'' ''$3.00''] [''Others'']
     = [newItemsHeader ''shop'' [exampleItem ''u'' ''Untitled Comic'' ''$3.00''],
        [], ''<b>Others</b>'', formatItemLine (exampleItem ''u'' ''Untitled Comic'' ''$3.00'')]
   \<and> formatNewItems ''shop'' [exampleItem ''a'' ''Avengers: New #1'' ''$5.00''] (Some [''Avengers'', ''Avengers''])
     = join [NL]
         [newItemsHeader ''shop'' [exampleItem ''a'' ''Avengers: New #1'' ''$5.00''],
          [], ''<b>Avengers</b>'', formatItemLine (exampleItem ''a'' ''Avengers: New #1'' ''$5.00''),
          [], ''<b>Avengers</b>'', formatItemLine (exampleItem ''a'' ''Avengers: New #1'' ''$5.00'')]"
  by code_simp

section \<open>The parts of a long message\<close>

subsection \<open>Joining and splitting\<close>

lemma split_not_Nil: "split sep s \<noteq> []"
  by (induction s) simp_all

lemma join_Cons: "ys \<noteq> [] \<Longrightarrow> join sep (x # ys) = x @ sep @ join sep ys"
  by (cases ys) simp_all

lemma join_split: "join [sep] (split sep s) = s"
proof (induction s)
  case Nil
  then show ?case by simp
next
  case (Cons c cs)
  obtain l ls where sp: "split sep cs = l # ls"
    using split_not_Nil [of sep cs] by (cases "split sep cs") auto
  show ?case
  proof (cases "c = sep")
    case True
    with Cons.IH show ?thesis by (simp add: join_Cons split_not_Nil)
  next
    case False
    with Cons.IH sp show ?thesis by (cases ls) simp_all
  qed
qed

lemma split_no_sep: "sep \<notin> set s \<Longrightarrow> split sep s = [s]"
  by (induction s) auto

lemma join_merge: "join sep (xs @ (a @ sep @ b) # ys) = join sep (xs @ a # b # ys)"
proof (induction xs)
  case Nil
  then show ?case by (cases ys) simp_all
next
  case (Cons x xs)
  have "xs @ (a @ sep @ b) # ys \<noteq> []" "xs @ a # b # ys \<noteq> []" by simp_all
  with Cons.IH show ?case by (simp add: join_Cons)
qed

lemma split_append: "sep \<notin> set a \<Longrightarrow> split sep (a @ sep # r) = a # split sep r"
  by (induction a) auto

lemma join_filter: "filter (\<lambda>c. c \<noteq> sep) (join [sep] xs) = filter (\<lambda>c. c \<noteq> sep) (concat xs)"
proof (induction xs)
  case Nil
  then show ?case by simp
next
  case (Cons x xs)
  then show ?case by (cases xs) simp_all
qed

lemma join_length: "xs \<noteq> [] \<Longrightarrow> length (join [sep] xs) + 1 = length (concat xs) + length xs"
proof (induction xs)
  case Nil
  then show ?case by simp
next
  case (Cons x xs)
  then show ?case by (cases xs) simp_all
qed

subsection \<open>Hard slicing\<close>

lemma slices_concat: "0 < n \<Longrightarrow> concat (slices n s) = s"
proof (induction n s rule: slices.induct)
  case (1 n s)
  then show ?case by (subst slices.simps) auto
qed

lemma slices_bound: "p \<in> set (slices n s) \<Longrightarrow> length p \<le> n"
proof (induction n s arbitrary: p rule: slices.induct)
  case (1 n s)
  from "1.prems" have "n \<noteq> 0 \<and> s \<noteq> [] \<and> (p = take n s \<or> p \<in> set (slices n (drop n s)))"
    by (subst (asm) slices.simps) (auto split: if_splits)
  with "1.IH" show ?case by auto
qed

lemma sliceLoop_slices:
  assumes "0 < maxLen"
  shows "sliceLoop line maxLen i chunks = Some (chunks @ slices maxLen (drop i line))"
proof (induction "length line - i" arbitrary: i chunks rule: less_induct)
  case less
  show ?case
  proof (cases "i < length line")
    case True
    with assms have "length line - (i + maxLen) < length line - i" by simp
    from less [OF this] have "sliceLoop line maxLen (i + maxLen) (chunks @ [take maxLen (drop i line)])
        = Some ((chunks @ [take maxLen (drop i line)]) @ slices maxLen (drop (i + maxLen) line))" .
    moreover have "slices maxLen (drop i line)
        = take maxLen (drop i line) # slices maxLen (drop (i + maxLen) line)"
      using True assms by (subst slices.simps) (simp add: add.commute)
    ultimately show ?thesis using True by (subst sliceLoop.simps) simp
  next
    case False
    then have "slices maxLen (drop i line) = []" by (subst slices.simps) simp
    with False show ?thesis by (subst sliceLoop.simps) simp
  qed
qed

lemma slices_nonempty: "p \<in> set (slices n s) \<Longrightarrow> p \<noteq> []"
proof (induction n s arbitrary: p rule: slices.induct)
  case (1 n s)
  from "1.prems" have "n \<noteq> 0 \<and> s \<noteq> [] \<and> (p = take n s \<or> p \<in> set (slices n (drop n s)))"
    by (subst (asm) slices.simps) (auto split: if_splits)
  with "1.IH" show ?case by auto
qed

subsection \<open>The lines that stay\<close>

lemma keptLines_nonempty: "filter (\<lambda>l. l \<noteq> []) (keptLines maxLen cur lines) = filter (\<lambda>l. l \<noteq> []) lines"
  by (induction lines arbitrary: cur) auto

lemma keptLines_concat: "concat (keptLines maxLen cur lines) = concat lines"
  by (induction lines arbitrary: cur) auto

lemma keptLines_length: "length (keptLines maxLen cur lines) \<le> length lines"
proof (induction lines arbitrary: cur)
  case Nil
  then show ?case by simp
next
  case (Cons line rest)
  have "length (keptLines maxLen c rest) \<le> Suc (length rest)" for c
    using Cons.IH [of c] by simp
  with Cons.IH show ?case by simp
qed

lemma keptLines_all:
  "length (keptLines maxLen cur lines) = length lines \<Longrightarrow> keptLines maxLen cur lines = lines"
proof (induction lines arbitrary: cur)
  case Nil
  then show ?case by simp
next
  case (Cons line rest)
  have le: "length (keptLines maxLen 0 rest) \<le> length rest" by (rule keptLines_length)
  from Cons.prems le Cons.IH show ?case by (auto split: if_splits)
qed

lemma keptLines_no_empty_line: "\<forall>l \<in> set lines. l \<noteq> [] \<Longrightarrow> keptLines maxLen cur lines = lines"
  by (induction lines arbitrary: cur) auto

lemma pieces_short: "\<forall>l \<in> set lines. length l \<le> maxLen \<Longrightarrow> pieces maxLen lines = lines"
  unfolding pieces_def by (induction lines) auto

lemma pieces_concat: "0 < maxLen \<Longrightarrow> concat (pieces maxLen lines) = concat lines"
  unfolding pieces_def by (induction lines) (auto simp: slices_concat)

lemma pieces_Cons:
  "pieces maxLen (line # lines) = (if maxLen < length line then slices maxLen line else [line]) @ pieces maxLen lines"
  by (simp add: pieces_def)

lemma keptLines_subset: "set (keptLines maxLen cur lines) \<subseteq> set lines"
  by (induction lines arbitrary: cur) auto

lemma join_kept_iff:
  assumes "txt \<noteq> []"
  shows "join [NL] (keptLines maxLen 0 (split NL txt)) = txt
     \<longleftrightarrow> keptLines maxLen 0 (split NL txt) = split NL txt"
proof
  assume "keptLines maxLen 0 (split NL txt) = split NL txt"
  then show "join [NL] (keptLines maxLen 0 (split NL txt)) = txt" by (simp add: join_split)
next
  let ?lines = "split NL txt"
  let ?kept = "keptLines maxLen 0 ?lines"
  assume j: "join [NL] ?kept = txt"
  with assms have ne: "?kept \<noteq> []" by auto
  have "length (join [NL] ?kept) + 1 = length (concat ?kept) + length ?kept"
    using ne by (rule join_length)
  moreover have "length (join [NL] ?lines) + 1 = length (concat ?lines) + length ?lines"
    using split_not_Nil by (rule join_length)
  ultimately have "length ?kept = length ?lines"
    using j by (simp add: join_split keptLines_concat)
  then show "?kept = ?lines" by (rule keptLines_all)
qed

subsection \<open>The loop over the lines\<close>

lemma chunkLoop_bound:
  assumes "0 < maxLen"
    and "\<forall>c \<in> set chunks. length c \<le> maxLen"
    and "length current \<le> maxLen"
  shows "\<exists>parts. chunkLoop maxLen lines chunks current = Some parts
           \<and> (\<forall>p \<in> set parts. length p \<le> maxLen)"
  using assms(2,3)
proof (induction lines arbitrary: chunks current)
  case Nil
  then show ?case by auto
next
  case (Cons line lines)
  let ?next = "if current \<noteq> [] then current @ [NL] @ line else line"
  let ?chunks1 = "if current \<noteq> [] then chunks @ [current] else chunks"
  have c1: "\<forall>c \<in> set ?chunks1. length c \<le> maxLen" using Cons.prems by auto
  show ?case
  proof (cases "length ?next \<le> maxLen")
    case True
    from Cons.IH [OF Cons.prems(1) True] True show ?thesis by (simp add: Let_def)
  next
    case long: False
    show ?thesis
    proof (cases "length line \<le> maxLen")
      case True
      from Cons.IH [OF c1 True] long True show ?thesis by (simp add: Let_def)
    next
      case False
      have sl: "sliceLoop line maxLen 0 ?chunks1 = Some (?chunks1 @ slices maxLen line)"
        using sliceLoop_slices [OF assms(1), of line 0 ?chunks1] by simp
      have "\<forall>c \<in> set (?chunks1 @ slices maxLen line). length c \<le> maxLen"
        using c1 slices_bound by auto
      from Cons.IH [OF this, of "[]"] obtain parts where
        "chunkLoop maxLen lines (?chunks1 @ slices maxLen line) [] = Some parts"
        "\<forall>p \<in> set parts. length p \<le> maxLen"
        by auto
      with long False sl show ?thesis by (simp add: Let_def)
    qed
  qed
qed

lemma chunkLoop_Cons:
  assumes "0 < maxLen"
  shows "chunkLoop maxLen (line # rest) chunks current =
     (if maxLen < length line
      then chunkLoop maxLen rest
             ((if current \<noteq> [] then chunks @ [current] else chunks) @ slices maxLen line) []
      else if current \<noteq> [] \<and> length current + 1 + length line \<le> maxLen
        then chunkLoop maxLen rest chunks (current @ [NL] @ line)
      else if current = [] then chunkLoop maxLen rest chunks line
      else chunkLoop maxLen rest (chunks @ [current]) line)"
proof -
  let ?chunks1 = "if current \<noteq> [] then chunks @ [current] else chunks"
  have sl: "sliceLoop line maxLen 0 ?chunks1 = Some (?chunks1 @ slices maxLen line)"
    using sliceLoop_slices [OF assms, of line 0 ?chunks1] by simp
  show ?thesis
  proof (cases "maxLen < length line")
    case True
    then show ?thesis by (simp add: Let_def sl del: sliceLoop.simps)
  next
    case False
    then show ?thesis by (auto simp: Let_def)
  qed
qed

lemma chunkLoop_join:
  assumes "0 < maxLen"
    and "chunkLoop maxLen lines chunks current = Some parts"
  shows "join [NL] parts = join [NL] (chunks @ (if current \<noteq> [] then [current] else [])
           @ pieces maxLen (keptLines maxLen (length current) lines))"
  using assms(2)
proof (induction lines arbitrary: chunks current)
  case Nil
  then show ?case by (auto simp: pieces_def)
next
  case (Cons line rest)
  note step = chunkLoop_Cons [OF assms(1), of line rest chunks current]
  consider (long) "maxLen < length line"
    | (fits) "\<not> maxLen < length line" "current \<noteq> []" "length current + 1 + length line \<le> maxLen"
    | (first) "\<not> maxLen < length line" "current = []"
    | (full) "\<not> maxLen < length line" "current \<noteq> []" "\<not> length current + 1 + length line \<le> maxLen"
    by blast
  then show ?case
  proof cases
    case long
    with Cons.prems step have "chunkLoop maxLen rest
        ((if current \<noteq> [] then chunks @ [current] else chunks) @ slices maxLen line) [] = Some parts"
      by simp
    from Cons.IH [OF this] long show ?thesis by (simp add: pieces_Cons)
  next
    case fits
    with Cons.prems step have "chunkLoop maxLen rest chunks (current @ [NL] @ line) = Some parts"
      by simp
    from Cons.IH [OF this] fits
    have "join [NL] parts = join [NL] (chunks @ (current @ [NL] @ line)
        # pieces maxLen (keptLines maxLen (length current + 1 + length line) rest))"
      by simp
    also have "\<dots> = join [NL] (chunks @ current # line
        # pieces maxLen (keptLines maxLen (length current + 1 + length line) rest))"
      by (rule join_merge)
    finally show ?thesis using fits by (simp add: pieces_Cons)
  next
    case first
    with Cons.prems step have "chunkLoop maxLen rest chunks line = Some parts" by simp
    from Cons.IH [OF this] first show ?thesis by (simp add: pieces_Cons)
  next
    case full
    with Cons.prems step have "chunkLoop maxLen rest (chunks @ [current]) line = Some parts" by simp
    from Cons.IH [OF this] full show ?thesis by (simp add: pieces_Cons)
  qed
qed

lemma chunkLoop_extends:
  assumes "0 < maxLen"
    and "chunkLoop maxLen lines chunks current = Some parts"
  shows "\<exists>more. parts = chunks @ more"
  using assms(2)
proof (induction lines arbitrary: chunks current)
  case Nil
  then show ?case by auto
next
  case (Cons line rest)
  note step = chunkLoop_Cons [OF assms(1), of line rest chunks current]
  from Cons.prems step obtain chunks' current' more' where
    "chunkLoop maxLen rest (chunks @ more') current' = Some parts"
    by (auto split: if_splits) (metis append_Nil2 append_assoc)+
  from Cons.IH [OF this] show ?case by auto
qed

lemma chunkLoop_slices:
  assumes "0 < maxLen"
    and "chunkLoop maxLen lines chunks current = Some parts"
    and "line \<in> set lines" and "maxLen < length line"
  shows "\<exists>pre post. parts = pre @ slices maxLen line @ post"
  using assms(2,3)
proof (induction lines arbitrary: chunks current)
  case Nil
  then show ?case by simp
next
  case (Cons l rest)
  note step = chunkLoop_Cons [OF assms(1), of l rest chunks current]
  show ?case
  proof (cases "l = line")
    case True
    let ?chunks1 = "if current \<noteq> [] then chunks @ [current] else chunks"
    from True assms(4) Cons.prems(1) step
    have "chunkLoop maxLen rest (?chunks1 @ slices maxLen line) [] = Some parts" by simp
    from chunkLoop_extends [OF assms(1) this] obtain more where
      "parts = (?chunks1 @ slices maxLen line) @ more" by blast
    then have "parts = ?chunks1 @ slices maxLen line @ more" by simp
    then show ?thesis by blast
  next
    case False
    with Cons.prems(2) have mem: "line \<in> set rest" by simp
    from Cons.prems(1) step obtain chunks' current' where
      "chunkLoop maxLen rest chunks' current' = Some parts"
      by (auto split: if_splits)
    from Cons.IH [OF this mem] show ?thesis .
  qed
qed

lemma chunkLoop_parts_nonempty:
  assumes "0 < maxLen"
    and "chunkLoop maxLen lines chunks current = Some parts"
    and "[] \<notin> set chunks"
  shows "[] \<notin> set parts"
  using assms(2,3)
proof (induction lines arbitrary: chunks current)
  case Nil
  then show ?case by (auto split: if_splits)
next
  case (Cons line rest)
  note step = chunkLoop_Cons [OF assms(1), of line rest chunks current]
  have sl: "[] \<notin> set (slices maxLen line)" using slices_nonempty by blast
  from Cons.prems step sl obtain chunks' current' where
    "chunkLoop maxLen rest chunks' current' = Some parts" "[] \<notin> set chunks'"
    by (auto split: if_splits)
  then show ?case by (rule Cons.IH)
qed

text \<open>
  Claim C8, as amended. For every text and every positive \<open>maxLen\<close>,
  \<open>chunkTelegramMessage\<close> returns, and each of its parts is at most \<open>maxLen\<close> long.
  The parts, read in order, hold every character of the text but newlines. A text that
  fits in one part comes back as that part. For a longer text no part is empty, and joining
  the parts with a newline gives the text in which the slices of a line stand in the place
  of every line longer than \<open>maxLen\<close> and from which the empty lines that would begin a
  part are left out (\<open>pieces\<close> of \<open>keptLines\<close>); the slices of every such long line are
  parts of their own, one after the other. So when no line is longer than \<open>maxLen\<close>,
  joining the parts with a newline gives the text without the empty lines that are left
  out, and it gives the text back exactly when the text fits in one part or no empty line
  is left out. Only empty lines are ever left out, so that a text without an empty line is
  given back; and hard slicing cuts a line into slices that are not empty, at most
  \<open>maxLen\<close> long, and put together are the line. (With \<open>maxLen = 0\<close> the slicing loop
  of the source does not end; the program calls the function with 3800 and 4096 only.) In
  the examples \<open>maxLen\<close> is 3: the lines "ab", "" and "cd" come back as the parts "ab"
  with its newline and "cd", whose join is the text; of the lines "ab", "cdefgh" and "ij"
  the long one is sliced where it stands.
\<close>

theorem chunks_fit_and_rebuild:
  assumes "0 < maxLen"
  shows "(\<exists>parts. chunkTelegramMessage txt maxLen = Some parts
           \<and> (\<forall>p \<in> set parts. length p \<le> maxLen)
           \<and> filter (\<lambda>c. c \<noteq> NL) (concat parts) = filter (\<lambda>c. c \<noteq> NL) txt
           \<and> (length txt \<le> maxLen \<longrightarrow> parts = [txt])
           \<and> (maxLen < length txt \<longrightarrow>
                [] \<notin> set parts
                \<and> join [NL] parts = join [NL] (pieces maxLen (keptLines maxLen 0 (split NL txt)))
                \<and> (\<forall>line \<in> set (split NL txt). maxLen < length line \<longrightarrow>
                      (\<exists>pre post. parts = pre @ slices maxLen line @ post)))
           \<and> ((\<forall>line \<in> set (split NL txt). length line \<le> maxLen) \<longrightarrow>
                join [NL] parts = (if length txt \<le> maxLen then txt
                                   else join [NL] (keptLines maxLen 0 (split NL txt)))
                \<and> (join [NL] parts = txt \<longleftrightarrow>
                     length txt \<le> maxLen \<or> keptLines maxLen 0 (split NL txt) = split NL txt)))
       \<and> (\<forall>cur lines. filter (\<lambda>l. l \<noteq> []) (keptLines maxLen cur lines) = filter (\<lambda>l. l \<noteq> []) lines)
       \<and> (\<forall>cur lines. (\<forall>l \<in> set lines. l \<noteq> []) \<longrightarrow> keptLines maxLen cur lines = lines)
       \<and> (\<forall>line. concat (slices maxLen line) = line
              \<and> (\<forall>s \<in> set (slices maxLen line). s \<noteq> [] \<and> length s \<le> maxLen))"
proof (intro conjI allI impI)
  show "\<exists>parts. chunkTelegramMessage txt maxLen = Some parts
           \<and> (\<forall>p \<in> set parts. length p \<le> maxLen)
           \<and> filter (\<lambda>c. c \<noteq> NL) (concat parts) = filter (\<lambda>c. c \<noteq> NL) txt
           \<and> (length txt \<le> maxLen \<longrightarrow> parts = [txt])
           \<and> (maxLen < length txt \<longrightarrow>
                [] \<notin> set parts
                \<and> join [NL] parts = join [NL] (pieces maxLen (keptLines maxLen 0 (split NL txt)))
                \<and> (\<forall>line \<in> set (split NL txt). maxLen < length line \<longrightarrow>
                      (\<exists>pre post. parts = pre @ slices maxLen line @ post)))
           \<and> ((\<forall>line \<in> set (split NL txt). length line \<le> maxLen) \<longrightarrow>
                join [NL] parts = (if length txt \<le> maxLen then txt
                                   else join [NL] (keptLines maxLen 0 (split NL txt)))
                \<and> (join [NL] parts = txt \<longleftrightarrow>
                     length txt \<le> maxLen \<or> keptLines maxLen 0 (split NL txt) = split NL txt))"
  proof (cases "length txt \<le> maxLen")
    case True
    then show ?thesis by (simp add: chunkTelegramMessage_def)
  next
    case False
    let ?lines = "split NL txt"
    let ?kept = "keptLines maxLen 0 ?lines"
    from False have c: "chunkTelegramMessage txt maxLen = chunkLoop maxLen ?lines [] []"
      by (simp add: chunkTelegramMessage_def)
    from chunkLoop_bound [OF assms, of "[]" "[]" ?lines] obtain parts where
      p: "chunkLoop maxLen ?lines [] [] = Some parts"
      and b: "\<forall>p \<in> set parts. length p \<le> maxLen"
      by auto
    have j: "join [NL] parts = join [NL] (pieces maxLen ?kept)"
      using chunkLoop_join [OF assms p] by simp
    have n: "[] \<notin> set parts"
      using chunkLoop_parts_nonempty [OF assms p] by simp
    have s: "\<forall>line \<in> set ?lines. maxLen < length line \<longrightarrow>
        (\<exists>pre post. parts = pre @ slices maxLen line @ post)"
      using chunkLoop_slices [OF assms p] by blast
    have "filter (\<lambda>c. c \<noteq> NL) (concat parts) = filter (\<lambda>c. c \<noteq> NL) (join [NL] parts)"
      by (simp only: join_filter)
    also have "\<dots> = filter (\<lambda>c. c \<noteq> NL) (concat (pieces maxLen ?kept))"
      by (simp only: j join_filter)
    also have "\<dots> = filter (\<lambda>c. c \<noteq> NL) (concat ?lines)"
      by (simp only: pieces_concat [OF assms] keptLines_concat)
    also have "\<dots> = filter (\<lambda>c. c \<noteq> NL) (join [NL] ?lines)"
      by (simp only: join_filter)
    finally have f: "filter (\<lambda>c. c \<noteq> NL) (concat parts) = filter (\<lambda>c. c \<noteq> NL) txt"
      by (simp only: join_split)
    have r: "join [NL] parts = join [NL] ?kept \<and> (join [NL] parts = txt \<longleftrightarrow> ?kept = ?lines)"
      if short: "\<forall>line \<in> set ?lines. length line \<le> maxLen"
    proof -
      from short keptLines_subset [of maxLen 0 ?lines]
      have "\<forall>line \<in> set ?kept. length line \<le> maxLen" by blast
      then have "pieces maxLen ?kept = ?kept" by (rule pieces_short)
      with j have "join [NL] parts = join [NL] ?kept" by simp
      moreover from False have "txt \<noteq> []" by auto
      ultimately show ?thesis using join_kept_iff [of "txt" maxLen] by simp
    qed
    from c p b f n j s r False show ?thesis by auto
  qed
next
  show "filter (\<lambda>l. l \<noteq> []) (keptLines maxLen cur lines) = filter (\<lambda>l. l \<noteq> []) lines"
    for cur lines
    by (rule keptLines_nonempty)
  show "keptLines maxLen cur lines = lines" if "\<forall>l \<in> set lines. l \<noteq> []" for cur lines
    using that by (rule keptLines_no_empty_line)
  show "concat (slices maxLen line) = line" for line
    using assms by (rule slices_concat)
  show "\<forall>s \<in> set (slices maxLen line). s \<noteq> [] \<and> length s \<le> maxLen" for line
    using slices_nonempty slices_bound by blast
qed

theorem chunks_fit_and_rebuild_witness:
  "(0 :: nat) < 3
   \<and> split NL (''ab'' @ [NL, NL] @ ''cd'') = [''ab'', [], ''cd'']
   \<and> keptLines 3 0 [''ab'', [], ''cd''] = [''ab'', [], ''cd'']
   \<and> chunkTelegramMessage (''ab'' @ [NL, NL] @ ''cd'') 3 = Some [''ab'' @ [NL], ''cd'']
   \<and> join [NL] [''ab'' @ [NL], ''cd''] = ''ab'' @ [NL, NL] @ ''cd''
   \<and> split NL (''ab'' @ [NL] @ ''cdefgh'' @ [NL] @ ''ij'') = [''ab'', ''cdefgh'', ''ij'']
   \<and> slices 3 ''cdefgh'' = [''cde'', ''fgh'']
   \<and> chunkTelegramMessage (''ab'' @ [NL] @ ''cdefgh'' @ [NL] @ ''ij'') 3
       = Some ([''ab''] @ [''cde'', ''fgh''] @ [''ij''])
   \<and> join [NL] [''ab'', ''cde'', ''fgh'', ''ij'']
       = join [NL] (pieces 3 (keptLines 3 0 [''ab'', ''cdefgh'', ''ij'']))"
proof -
  let ?t1 = "''ab'' @ [NL, NL] @ ''cd''"
  let ?t2 = "''ab'' @ [NL] @ ''cdefgh'' @ [NL] @ ''ij''"
  have pos: "(0 :: nat) < 3" by simp
  have sp1: "split NL ?t1 = [''ab'', [], ''cd'']" by (simp add: NL_def)
  have k1: "keptLines 3 0 [''ab'', [], ''cd''] = [''ab'', [], ''cd'']" by simp
  have c1: "chunkTelegramMessage ?t1 3 = Some [''ab'' @ [NL], ''cd'']" by code_simp
  have sp2: "split NL ?t2 = [''ab'', ''cdefgh'', ''ij'']" by (simp add: NL_def)
  have sl: "slices 3 ''cdefgh'' = [''cde'', ''fgh'']" by code_simp
  have c2: "chunkTelegramMessage ?t2 3 = Some ([''ab''] @ [''cde'', ''fgh''] @ [''ij''])" by code_simp
  from chunks_fit_and_rebuild [OF pos, of ?t1, THEN conjunct1] obtain parts where
    p: "chunkTelegramMessage ?t1 3 = Some parts"
    and q: "(\<forall>line \<in> set (split NL ?t1). length line \<le> 3) \<longrightarrow>
              join [NL] parts = (if length ?t1 \<le> 3 then ?t1
                                 else join [NL] (keptLines 3 0 (split NL ?t1)))
              \<and> (join [NL] parts = ?t1 \<longleftrightarrow>
                   length ?t1 \<le> 3 \<or> keptLines 3 0 (split NL ?t1) = split NL ?t1)"
    by (elim exE conjE) (rule that, assumption+)
  from p c1 have "parts = [''ab'' @ [NL], ''cd'']" by simp
  moreover have "\<forall>line \<in> set (split NL ?t1). length line \<le> 3"
    unfolding sp1 by simp
  moreover have "keptLines 3 0 (split NL ?t1) = split NL ?t1"
    unfolding sp1 by (rule k1)
  ultimately have j1: "join [NL] [''ab'' @ [NL], ''cd''] = ?t1" using q by simp
  from chunks_fit_and_rebuild [OF pos, of ?t2, THEN conjunct1] obtain parts2 where
    p2: "chunkTelegramMessage ?t2 3 = Some parts2"
    and q2: "3 < length ?t2 \<longrightarrow>
               [] \<notin> set parts2
               \<and> join [NL] parts2 = join [NL] (pieces 3 (keptLines 3 0 (split NL ?t2)))
               \<and> (\<forall>line \<in> set (split NL ?t2). 3 < length line \<longrightarrow>
                     (\<exists>pre post. parts2 = pre @ slices 3 line @ post))"
    by (elim exE conjE) (rule that, assumption+)
  from p2 c2 have "parts2 = [''ab'', ''cde'', ''fgh'', ''ij'']" by simp
  moreover have "3 < length ?t2" by simp
  ultimately have j2: "join [NL] [''ab'', ''cde'', ''fgh'', ''ij'']
      = join [NL] (pieces 3 (keptLines 3 0 [''ab'', ''cdefgh'', ''ij'']))"
    using q2 unfolding sp2 by simp
  from pos sp1 k1 c1 j1 sp2 sl c2 j2 show ?thesis by (intro conjI)
qed

subsection \<open>Empty lines that are lost\<close>

lemma leading_empty_line_dropped:
  assumes "0 < maxLen" and "NL \<notin> set line" and "length line = maxLen"
  shows "chunkTelegramMessage (NL # line) maxLen = Some [line]"
proof -
  from assms(2) have "split NL (NL # line) = [[], line]" by (simp add: split_no_sep)
  moreover from assms(1,3) have "line \<noteq> []" by auto
  ultimately show ?thesis using assms(3)
    by (simp add: chunkTelegramMessage_def Let_def)
qed

lemma empty_line_after_full_part_dropped:
  assumes "0 < maxLen" and "NL \<notin> set a" and "length a = maxLen"
    and "NL \<notin> set b" and "b \<noteq> []" and "length b \<le> maxLen"
  shows "chunkTelegramMessage (a @ [NL, NL] @ b) maxLen = Some [a, b]"
proof -
  from assms(2,4) have "split NL (a @ [NL, NL] @ b) = [a, [], b]"
    by (simp add: split_append split_no_sep)
  moreover from assms(1,3) have "a \<noteq> []" by auto
  ultimately show ?thesis using assms(3,5,6)
    by (simp add: chunkTelegramMessage_def Let_def)
qed

text \<open>As the claim is written, lines that are no longer than the safe length are enough to
  get the text back. An empty line that would begin a part is dropped with its newline:
  a text that begins with an empty line, followed by a line of 3800 characters, comes back
  as one part without the empty line; and an empty line that follows a line of 3800
  characters is lost between two parts.\<close>

theorem leading_empty_line_is_lost:
  "split NL (NL # replicate 3800 (CHR ''a'')) = [[], replicate 3800 (CHR ''a'')]
   \<and> length (replicate 3800 (CHR ''a'')) \<le> TELEGRAM_SAFE_CHUNK_LEN
   \<and> chunkTelegramMessage (NL # replicate 3800 (CHR ''a'')) TELEGRAM_SAFE_CHUNK_LEN
       = Some [replicate 3800 (CHR ''a'')]
   \<and> join [NL] [replicate 3800 (CHR ''a'')] \<noteq> NL # replicate 3800 (CHR ''a'')
   \<and> split NL (replicate 3800 (CHR ''a'') @ [NL, NL] @ ''b'') = [replicate 3800 (CHR ''a''), [], ''b'']
   \<and> chunkTelegramMessage (replicate 3800 (CHR ''a'') @ [NL, NL] @ ''b'') TELEGRAM_SAFE_CHUNK_LEN
       = Some [replicate 3800 (CHR ''a''), ''b'']
   \<and> join [NL] [replicate 3800 (CHR ''a''), ''b''] \<noteq> replicate 3800 (CHR ''a'') @ [NL, NL] @ ''b''"
proof -
  have nl: "NL \<notin> set (replicate 3800 (CHR ''a''))" "NL \<notin> set ''b''" by (simp_all add: NL_def)
  then have sp: "split NL (NL # replicate 3800 (CHR ''a'')) = [[], replicate 3800 (CHR ''a'')]"
    by (simp add: split_no_sep)
  have c: "chunkTelegramMessage (NL # replicate 3800 (CHR ''a'')) TELEGRAM_SAFE_CHUNK_LEN
       = Some [replicate 3800 (CHR ''a'')]"
    using nl by (intro leading_empty_line_dropped) (simp_all add: TELEGRAM_SAFE_CHUNK_LEN_def)
  have sp2: "split NL (replicate 3800 (CHR ''a'') @ [NL, NL] @ ''b'') = [replicate 3800 (CHR ''a''), [], ''b'']"
    using nl by (simp add: split_append split_no_sep)
  have c2: "chunkTelegramMessage (replicate 3800 (CHR ''a'') @ [NL, NL] @ ''b'') TELEGRAM_SAFE_CHUNK_LEN
       = Some [replicate 3800 (CHR ''a''), ''b'']"
    using nl by (intro empty_line_after_full_part_dropped) (simp_all add: TELEGRAM_SAFE_CHUNK_LEN_def)
  from sp c sp2 c2 show ?thesis by (simp add: TELEGRAM_SAFE_CHUNK_LEN_def)
qed

end
